theory Spec2Isabelle
  imports Main "HOL-Library.Word" "HOL-Library.Monad_Syntax"
begin

unbundle bit_operations_syntax

section \<open>The SSD1306 OLED driver over the hardware two-wire interface\<close>

text \<open>
  A shallow embedding of \<^verbatim>\<open>SSD1306_OLED_HW_I2C_LIB.cpp\<close>. Every member function of the
  class is a HOL function of the same name that takes the state of the microcontroller
  and returns the state the call leaves behind. \<^verbatim>\<open>uint8_t\<close> and \<^verbatim>\<open>uint16_t\<close> are 8-bit
  and 16-bit words; where C promotes an operand to \<^verbatim>\<open>int\<close> before adding, the sum is taken
  on \<open>nat\<close> and narrowed afterwards, as the assignment to the \<^verbatim>\<open>uint8_t\<close> variable does.
\<close>

type_synonym u8 = "8 word"
type_synonym u16 = "16 word"

subsection \<open>The bus and the hardware around the program\<close>

text \<open>
  What the program makes the two-wire hardware do, in the order of the writes to
  \<^verbatim>\<open>TWCR\<close>: a start condition (\<^verbatim>\<open>TWINT|TWSTA|TWEN\<close>), the transmission of the byte in
  \<^verbatim>\<open>TWDR\<close> (\<^verbatim>\<open>TWINT|TWEN\<close>), a stop condition (\<^verbatim>\<open>TWINT|TWEN|TWSTO\<close>).
\<close>

datatype bus_event = START | WRITE u8 | STOP

text \<open>
  After a start or a transmission the program spins in
  \<^verbatim>\<open>while (!(TWCR & (1<<TWINT)));\<close> and then reads \<^verbatim>\<open>TWSR\<close>. The loop ends when the
  hardware sets \<^verbatim>\<open>TWINT\<close>, and never ends when it does not: the outcome of one wait is
  either \<open>Done\<close> with the status then found in \<^verbatim>\<open>TWSR\<close>, or \<open>Stall\<close>.
\<close>

datatype response = Stall | Done u8

text \<open>
  The header \<^verbatim>\<open>SSD1306_OLED_HW_I2C_LIB.h\<close> is not part of the sources at hand, and neither
  is the hardware. Both are parameters of the model: the constants \<^verbatim>\<open>SLA_W\<close>,
  \<^verbatim>\<open>ERROR_PIN\<close>, \<^verbatim>\<open>OLED_CMD_SET_COLUMN_RANGE\<close> and \<^verbatim>\<open>OLED_CMD_SET_PAGE_RANGE\<close> of the
  header; \<open>twi\<close>, the outcome of the wait that follows a bus action, given everything
  that happened on the bus up to and including that action; and \<open>flash_after_font\<close>, the
  bytes of program memory behind the font table, which \<^verbatim>\<open>pgm_read_byte\<close> returns for
  an index past the table's end.
\<close>

record platform =
  SLA_W :: u8
  ERROR_PIN :: nat
  OLED_CMD_SET_COLUMN_RANGE :: u8
  OLED_CMD_SET_PAGE_RANGE :: u8
  twi :: "bus_event list \<Rightarrow> response"
  flash_after_font :: "nat \<Rightarrow> u8"

text \<open>
  The state the functions change: the log of bus actions, the status register as last
  read, the global interrupt flag (\<^verbatim>\<open>cli\<close>/\<^verbatim>\<open>sei\<close>), port D with the number of times
  the error pin has been toggled on it (each toggle is followed by
  \<^verbatim>\<open>_delay_ms(300)\<close>, which makes it visible), and the global scratch array
  \<^verbatim>\<open>ssd1306_numdec_buffer\<close>, a map from index to byte.
\<close>

record mcu =
  wire :: "bus_event list"
  TWSR :: u8
  interrupts :: bool
  PORTD :: u8
  pin_toggles :: nat
  ssd1306_numdec_buffer :: "nat \<Rightarrow> u8"

text \<open>
  One bus action followed by its wait. \<open>None\<close> is the call that never returns: the
  wait loop spins forever.
\<close>

definition twi_action :: "platform \<Rightarrow> bus_event \<Rightarrow> mcu \<Rightarrow> mcu option" where
  "twi_action E e s =
     (case twi E (wire s @ [e]) of
        Stall \<Rightarrow> None
      | Done status \<Rightarrow> Some (s\<lparr>wire := wire s @ [e], TWSR := status\<rparr>))"

subsection \<open>Error signal\<close>

function D_ERROR_loop :: "platform \<Rightarrow> u8 \<Rightarrow> mcu \<Rightarrow> mcu" where
  "D_ERROR_loop E i s =
     (if i < 10
      then D_ERROR_loop E (i + 1)
             (s\<lparr>PORTD := PORTD s XOR push_bit (ERROR_PIN E) 1,
                pin_toggles := Suc (pin_toggles s)\<rparr>)
      else s)"
  by pat_completeness auto
termination
proof (relation "measure (\<lambda>(E, i, s). 10 - unat i)")
  show "wf (measure (\<lambda>(E :: platform, i :: u8, s :: mcu). 10 - unat i))"
    by simp
next
  fix E :: platform and i :: u8 and s :: mcu
  assume "i < 10"
  then have "unat i < 10"
    by (simp add: word_less_nat_alt)
  then have "unat (i + 1) = unat i + 1"
    by (simp add: unat_word_ariths)
  with \<open>unat i < 10\<close>
  show "((E, i + 1, s\<lparr>PORTD := PORTD s XOR push_bit (ERROR_PIN E) 1,
                      pin_toggles := Suc (pin_toggles s)\<rparr>), (E, i, s))
        \<in> measure (\<lambda>(E, i, s). 10 - unat i)"
    by simp
qed

declare D_ERROR_loop.simps [simp del]

definition D_ERROR :: "platform \<Rightarrow> mcu \<Rightarrow> mcu" where
  "D_ERROR E s = D_ERROR_loop E 0 s"

subsection \<open>Bus transaction primitives\<close>

definition D_TX :: "platform \<Rightarrow> u8 \<Rightarrow> mcu \<Rightarrow> mcu option" where
  "D_TX E DATA s =
     do {
       s1 \<leftarrow> twi_action E (WRITE DATA) s;
       Some (if TWSR s1 AND 0xF8 \<noteq> 0x28 then D_ERROR E s1 else s1)
     }"

definition D_START_CMD :: "platform \<Rightarrow> mcu \<Rightarrow> mcu option" where
  "D_START_CMD E s =
     do {
       s1 \<leftarrow> twi_action E START (s\<lparr>interrupts := False\<rparr>);
       let s2 = (if TWSR s1 AND 0xF8 \<noteq> 0x08 then D_ERROR E s1 else s1);
       s3 \<leftarrow> twi_action E (WRITE (SLA_W E)) s2;
       let s4 = (if TWSR s3 AND 0xF8 \<noteq> 0x18 then D_ERROR E s3 else s3);
       D_TX E 0x00 s4
     }"

definition D_START_DAT :: "platform \<Rightarrow> mcu \<Rightarrow> mcu option" where
  "D_START_DAT E s =
     do {
       s1 \<leftarrow> twi_action E START (s\<lparr>interrupts := False\<rparr>);
       let s2 = (if TWSR s1 AND 0xF8 \<noteq> 0x08 then D_ERROR E s1 else s1);
       s3 \<leftarrow> twi_action E (WRITE (SLA_W E)) s2;
       let s4 = (if TWSR s3 AND 0xF8 \<noteq> 0x18 then D_ERROR E s3 else s3);
       D_TX E 0x40 s4
     }"

definition D_STOP :: "mcu \<Rightarrow> mcu option" where
  "D_STOP s = Some (s\<lparr>wire := wire s @ [STOP], interrupts := True\<rparr>)"

subsection \<open>Addressing\<close>

definition D_SETPOS :: "platform \<Rightarrow> u8 \<Rightarrow> u8 \<Rightarrow> mcu \<Rightarrow> mcu option" where
  "D_SETPOS E x y s =
     do {
       s1 \<leftarrow> D_START_CMD E s;
       s2 \<leftarrow> D_TX E (0xB0 + y) s1;
       s3 \<leftarrow> D_TX E (drop_bit 4 (x AND 0xF0) OR 0x10) s2;
       s4 \<leftarrow> D_TX E (x AND 0x0F) s3;
       D_STOP s4
     }"

subsection \<open>Constant tables\<close>

text \<open>The 6x8 font: five column bytes for each character from the space (32) to \<open>z\<close>.\<close>

definition D_FONT6x8 :: "u8 list" where
  "D_FONT6x8 =
    [
     0x00, 0x00, 0x00, 0x00, 0x00,
     0x00, 0x00, 0x2F, 0x00, 0x00,
     0x00, 0x07, 0x00, 0x07, 0x00,
     0x14, 0x7F, 0x14, 0x7F, 0x14,
     0x24, 0x2A, 0x7F, 0x2A, 0x12,
     0x62, 0x64, 0x08, 0x13, 0x23,
     0x36, 0x49, 0x55, 0x22, 0x50,
     0x00, 0x05, 0x03, 0x00, 0x00,
     0x00, 0x1C, 0x22, 0x41, 0x00,
     0x00, 0x41, 0x22, 0x1C, 0x00,
     0x14, 0x08, 0x3E, 0x08, 0x14,
     0x08, 0x08, 0x3E, 0x08, 0x08,
     0x00, 0x00, 0xA0, 0x60, 0x00,
     0x08, 0x08, 0x08, 0x08, 0x08,
     0x00, 0x60, 0x60, 0x00, 0x00,
     0x20, 0x10, 0x08, 0x04, 0x02,
     0x3E, 0x51, 0x49, 0x45, 0x3E,
     0x00, 0x42, 0x7F, 0x40, 0x00,
     0x42, 0x61, 0x51, 0x49, 0x46,
     0x21, 0x41, 0x45, 0x4B, 0x31,
     0x18, 0x14, 0x12, 0x7F, 0x10,
     0x27, 0x45, 0x45, 0x45, 0x39,
     0x3C, 0x4A, 0x49, 0x49, 0x30,
     0x01, 0x71, 0x09, 0x05, 0x03,
     0x36, 0x49, 0x49, 0x49, 0x36,
     0x06, 0x49, 0x49, 0x29, 0x1E,
     0x00, 0x36, 0x36, 0x00, 0x00,
     0x00, 0x56, 0x36, 0x00, 0x00,
     0x08, 0x14, 0x22, 0x41, 0x00,
     0x14, 0x14, 0x14, 0x14, 0x14,
     0x00, 0x41, 0x22, 0x14, 0x08,
     0x02, 0x01, 0x51, 0x09, 0x06,
     0x32, 0x49, 0x59, 0x51, 0x3E,
     0x7C, 0x12, 0x11, 0x12, 0x7C,
     0x7F, 0x49, 0x49, 0x49, 0x36,
     0x3E, 0x41, 0x41, 0x41, 0x22,
     0x7F, 0x41, 0x41, 0x22, 0x1C,
     0x7F, 0x49, 0x49, 0x49, 0x41,
     0x7F, 0x09, 0x09, 0x09, 0x01,
     0x3E, 0x41, 0x49, 0x49, 0x7A,
     0x7F, 0x08, 0x08, 0x08, 0x7F,
     0x00, 0x41, 0x7F, 0x41, 0x00,
     0x20, 0x40, 0x41, 0x3F, 0x01,
     0x7F, 0x08, 0x14, 0x22, 0x41,
     0x7F, 0x40, 0x40, 0x40, 0x40,
     0x7F, 0x02, 0x0C, 0x02, 0x7F,
     0x7F, 0x04, 0x08, 0x10, 0x7F,
     0x3E, 0x41, 0x41, 0x41, 0x3E,
     0x7F, 0x09, 0x09, 0x09, 0x06,
     0x3E, 0x41, 0x51, 0x21, 0x5E,
     0x7F, 0x09, 0x19, 0x29, 0x46,
     0x46, 0x49, 0x49, 0x49, 0x31,
     0x01, 0x01, 0x7F, 0x01, 0x01,
     0x3F, 0x40, 0x40, 0x40, 0x3F,
     0x1F, 0x20, 0x40, 0x20, 0x1F,
     0x3F, 0x40, 0x38, 0x40, 0x3F,
     0x63, 0x14, 0x08, 0x14, 0x63,
     0x07, 0x08, 0x70, 0x08, 0x07,
     0x61, 0x51, 0x49, 0x45, 0x43,
     0x00, 0x7F, 0x41, 0x41, 0x00,
     0x55, 0x2A, 0x55, 0x2A, 0x55,
     0x00, 0x41, 0x41, 0x7F, 0x00,
     0x04, 0x02, 0x01, 0x02, 0x04,
     0x40, 0x40, 0x40, 0x40, 0x40,
     0x00, 0x01, 0x02, 0x04, 0x00,
     0x20, 0x54, 0x54, 0x54, 0x78,
     0x7F, 0x48, 0x44, 0x44, 0x38,
     0x38, 0x44, 0x44, 0x44, 0x20,
     0x38, 0x44, 0x44, 0x48, 0x7F,
     0x38, 0x54, 0x54, 0x54, 0x18,
     0x08, 0x7E, 0x09, 0x01, 0x02,
     0x18, 0xA4, 0xA4, 0xA4, 0x7C,
     0x7F, 0x08, 0x04, 0x04, 0x78,
     0x00, 0x44, 0x7D, 0x40, 0x00,
     0x40, 0x80, 0x84, 0x7D, 0x00,
     0x7F, 0x10, 0x28, 0x44, 0x00,
     0x00, 0x41, 0x7F, 0x40, 0x00,
     0x7C, 0x04, 0x18, 0x04, 0x78,
     0x7C, 0x08, 0x04, 0x04, 0x78,
     0x38, 0x44, 0x44, 0x44, 0x38,
     0xFC, 0x24, 0x24, 0x24, 0x18,
     0x18, 0x24, 0x24, 0x18, 0xFC,
     0x7C, 0x08, 0x04, 0x04, 0x08,
     0x48, 0x54, 0x54, 0x54, 0x20,
     0x04, 0x3F, 0x44, 0x40, 0x20,
     0x3C, 0x40, 0x40, 0x20, 0x7C,
     0x1C, 0x20, 0x40, 0x20, 0x1C,
     0x3C, 0x40, 0x30, 0x40, 0x3C,
     0x44, 0x28, 0x10, 0x28, 0x44,
     0x1C, 0xA0, 0xA0, 0xA0, 0x7C,
     0x44, 0x64, 0x54, 0x4C, 0x44
    ]"

text \<open>
  \<^verbatim>\<open>pgm_read_byte(&D_FONT6x8[idx])\<close>: the table's byte, or the byte of program memory
  that lies \<open>idx - sizeof D_FONT6x8\<close> bytes behind the table.
\<close>

definition pgm_read_font :: "platform \<Rightarrow> nat \<Rightarrow> u8" where
  "pgm_read_font E idx =
     (if idx < length D_FONT6x8 then D_FONT6x8 ! idx
      else flash_after_font E (idx - length D_FONT6x8))"

definition init_sequence :: "u8 list" where
  "init_sequence =
    [0xAE,
     0x20, 0x00,
     0xB0,
     0xC8,
     0x00,
     0x10,
     0x40,
     0x81, 0x00,
     0xA1,
     0xA6,
     0xA8, 0x3F,
     0xA4,
     0xD3, 0x00,
     0xD5,
     0xF0,
     0xD9, 0x22,
     0xDA, 0x12,
     0xDB,
     0x20,
     0x8D, 0x14,
     0xAF]"

subsection \<open>Initialisation, power, contrast, clear\<close>

function D_INIT_loop :: "platform \<Rightarrow> u8 \<Rightarrow> mcu \<Rightarrow> mcu option" where
  "D_INIT_loop E i s =
     (if unat i < length init_sequence
      then do { s1 \<leftarrow> D_TX E (init_sequence ! unat i) s; D_INIT_loop E (i + 1) s1 }
      else Some s)"
  by pat_completeness auto
termination
  by (relation "measure (\<lambda>(E, i, s). length init_sequence - unat i)")
     (auto simp: init_sequence_def unat_word_ariths)

declare D_INIT_loop.simps [simp del]

definition D_INIT :: "platform \<Rightarrow> mcu \<Rightarrow> mcu option" where
  "D_INIT E s =
     do {
       s1 \<leftarrow> D_START_CMD E s;
       s2 \<leftarrow> D_INIT_loop E 0 s1;
       s3 \<leftarrow> D_TX E (OLED_CMD_SET_COLUMN_RANGE E) s2;
       s4 \<leftarrow> D_TX E 0x00 s3;
       s5 \<leftarrow> D_TX E 0x7F s4;
       s6 \<leftarrow> D_TX E (OLED_CMD_SET_PAGE_RANGE E) s5;
       s7 \<leftarrow> D_TX E 0 s6;
       s8 \<leftarrow> D_TX E 0x07 s7;
       D_STOP s8
     }"

function D_CLEAR_loop :: "platform \<Rightarrow> u16 \<Rightarrow> mcu \<Rightarrow> mcu option" where
  "D_CLEAR_loop E i s =
     (if i < 128 * 8
      then do { s1 \<leftarrow> D_TX E 0 s; D_CLEAR_loop E (i + 1) s1 }
      else Some s)"
  by pat_completeness auto
termination
  by (relation "measure (\<lambda>(E, i, s). 1024 - unat i)")
     (auto simp: word_less_nat_alt unat_word_ariths)

declare D_CLEAR_loop.simps [simp del]

definition D_CLEAR :: "platform \<Rightarrow> mcu \<Rightarrow> mcu option" where
  "D_CLEAR E s =
     do {
       s1 \<leftarrow> D_SETPOS E 0 0 s;
       s2 \<leftarrow> D_START_DAT E s1;
       s3 \<leftarrow> D_CLEAR_loop E 0 s2;
       D_STOP s3
     }"

definition D_ON :: "platform \<Rightarrow> mcu \<Rightarrow> mcu option" where
  "D_ON E s = do { s1 \<leftarrow> D_START_CMD E s; s2 \<leftarrow> D_TX E 0xAF s1; D_STOP s2 }"

definition D_OFF :: "platform \<Rightarrow> mcu \<Rightarrow> mcu option" where
  "D_OFF E s = do { s1 \<leftarrow> D_START_CMD E s; s2 \<leftarrow> D_TX E 0xAE s1; D_STOP s2 }"

definition D_CONTRAST :: "platform \<Rightarrow> u8 \<Rightarrow> mcu \<Rightarrow> mcu option" where
  "D_CONTRAST E contrast s =
     do {
       s1 \<leftarrow> D_START_CMD E s;
       s2 \<leftarrow> D_TX E 0x81 s1;
       s3 \<leftarrow> D_TX E contrast s2;
       D_STOP s3
     }"

subsection \<open>Lines\<close>

function D_DRAW_HOR_loop :: "platform \<Rightarrow> u8 \<Rightarrow> u8 \<Rightarrow> u8 \<Rightarrow> mcu \<Rightarrow> mcu option" where
  "D_DRAW_HOR_loop E dot_byte len i s =
     (if i < len
      then do { s1 \<leftarrow> D_TX E dot_byte s; D_DRAW_HOR_loop E dot_byte len (i + 1) s1 }
      else Some s)"
  by pat_completeness auto
termination
proof (relation "measure (\<lambda>(E, dot_byte, len, i, s). unat len - unat i)", goal_cases)
  case 1
  show ?case by simp
next
  case (2 E dot_byte len i s s1)
  have "unat len < 256"
    using unsigned_less [of len, where ?'a = nat] by simp
  with 2 show ?case
    by (simp add: word_less_nat_alt unat_word_ariths)
qed

declare D_DRAW_HOR_loop.simps [simp del]

definition D_DRAW_HOR :: "platform \<Rightarrow> u8 \<Rightarrow> u8 \<Rightarrow> u8 \<Rightarrow> mcu \<Rightarrow> mcu option" where
  "D_DRAW_HOR E xpos ypos len s =
     (let ypage = ypos div 8;
          dot_byte = push_bit (unat (ypos mod 8)) 1
      in do {
           s1 \<leftarrow> D_SETPOS E xpos ypage s;
           s2 \<leftarrow> D_START_DAT E s1;
           s3 \<leftarrow> D_DRAW_HOR_loop E dot_byte len 0 s2;
           D_STOP s3
         })"

function D_DRAW_VERT_loop :: "platform \<Rightarrow> u8 \<Rightarrow> u8 \<Rightarrow> u8 \<Rightarrow> mcu \<Rightarrow> mcu option" where
  "D_DRAW_VERT_loop E xpos ypage_end i s =
     (if i < ypage_end
      then do {
             s1 \<leftarrow> D_SETPOS E xpos i s;
             s2 \<leftarrow> D_START_DAT E s1;
             s3 \<leftarrow> D_TX E 0xFF s2;
             s4 \<leftarrow> D_STOP s3;
             D_DRAW_VERT_loop E xpos ypage_end (i + 1) s4
           }
      else Some s)"
  by pat_completeness auto
termination
proof (relation "measure (\<lambda>(E, xpos, ypage_end, i, s). unat ypage_end - unat i)", goal_cases)
  case 1
  show ?case by simp
next
  case (2 E xpos ypage_end i s s1 s2 s3 s4)
  have "unat ypage_end < 256"
    using unsigned_less [of ypage_end, where ?'a = nat] by simp
  with 2 show ?case
    by (simp add: word_less_nat_alt unat_word_ariths)
qed

declare D_DRAW_VERT_loop.simps [simp del]

text \<open>
  \<^verbatim>\<open>ypos + length\<close> is an \<^verbatim>\<open>int\<close> sum (at most 510), so it is taken on \<open>nat\<close>; its
  quotient by 8 fits the \<^verbatim>\<open>uint8_t\<close> it is assigned to.
\<close>

definition D_DRAW_VERT :: "platform \<Rightarrow> u8 \<Rightarrow> u8 \<Rightarrow> u8 \<Rightarrow> mcu \<Rightarrow> mcu option" where
  "D_DRAW_VERT E xpos ypos len s =
     (let ypage_start = ypos div 8;
          ypage_end = (of_nat ((unat ypos + unat len) div 8) :: u8);
          ypages_span = ypage_end - ypage_start;
          dot_byte_start = (push_bit (unat (ypos mod 8)) 0xFF :: u8);
          dot_byte_end = (drop_bit ((unat ypos + unat len) mod 8) 0xFF :: u8)
      in if ypages_span = 0
         then do {
                s1 \<leftarrow> D_SETPOS E xpos ypage_start s;
                s2 \<leftarrow> D_START_DAT E s1;
                s3 \<leftarrow> D_TX E (dot_byte_start AND dot_byte_end) s2;
                D_STOP s3
              }
         else do {
                s1 \<leftarrow> D_SETPOS E xpos ypage_start s;
                s2 \<leftarrow> D_START_DAT E s1;
                s3 \<leftarrow> D_TX E dot_byte_start s2;
                s4 \<leftarrow> D_STOP s3;
                s5 \<leftarrow> (if 1 < ypages_span
                       then D_DRAW_VERT_loop E xpos ypage_end (ypage_start + 1) s4
                       else Some s4);
                s6 \<leftarrow> D_SETPOS E xpos ypage_end s5;
                s7 \<leftarrow> D_START_DAT E s6;
                s8 \<leftarrow> D_TX E dot_byte_end s7;
                D_STOP s8
              })"

subsection \<open>Text\<close>

function D_PRINT_CHAR_loop :: "platform \<Rightarrow> u8 \<Rightarrow> u8 \<Rightarrow> mcu \<Rightarrow> mcu option" where
  "D_PRINT_CHAR_loop E c i s =
     (if i < 5
      then do {
             s1 \<leftarrow> D_TX E (pgm_read_font E (unat c * 5 + unat i)) s;
             D_PRINT_CHAR_loop E c (i + 1) s1
           }
      else Some s)"
  by pat_completeness auto
termination
  by (relation "measure (\<lambda>(E, c, i, s). 5 - unat i)")
     (auto simp: word_less_nat_alt unat_word_ariths)

declare D_PRINT_CHAR_loop.simps [simp del]

definition D_PRINT_CHAR :: "platform \<Rightarrow> u8 \<Rightarrow> mcu \<Rightarrow> mcu option" where
  "D_PRINT_CHAR E ch s =
     (let c = ch - 32
      in do {
           s1 \<leftarrow> D_START_DAT E s;
           s2 \<leftarrow> D_TX E 0x00 s1;
           s3 \<leftarrow> D_PRINT_CHAR_loop E c 0 s2;
           D_STOP s3
         })"

text \<open>
  The argument \<^verbatim>\<open>char *s\<close> is the list of the bytes from \<^verbatim>\<open>s\<close> to the end of the array
  it points into. \<^verbatim>\<open>while (*s)\<close> stops at the first zero byte; with no zero byte in the
  array the read leaves it, and the call has no defined result (\<open>None\<close>).
\<close>

fun D_PRINT_STR :: "platform \<Rightarrow> u8 list \<Rightarrow> mcu \<Rightarrow> mcu option" where
  "D_PRINT_STR E [] s = None"
| "D_PRINT_STR E (ch # rest) s =
     (if ch \<noteq> 0
      then do { s1 \<leftarrow> D_PRINT_CHAR E ch s; D_PRINT_STR E rest s1 }
      else Some s)"

subsection \<open>Integers in decimal\<close>

text \<open>
  Modelled from the spec: the macro \<^verbatim>\<open>USINT2DECASCII_MAX_DIGITS\<close> of the absent header,
  the "fixed maximum digit width (5)" of the scratch buffer.
\<close>

definition USINT2DECASCII_MAX_DIGITS :: nat where
  "USINT2DECASCII_MAX_DIGITS = 5"

definition powers :: "u16 list" where
  "powers = [10000, 1000, 100, 10, 1]"

text \<open>
  The inner loop \<^verbatim>\<open>while (num >= powers[pos]) { digit++; num -= powers[pos]; }\<close>, for
  any value \<open>p\<close> of \<^verbatim>\<open>powers[pos]\<close>. With \<open>p = 0\<close> it would not end.
\<close>

partial_function (option) usint2decascii_while :: "u16 \<Rightarrow> u16 \<Rightarrow> u8 \<Rightarrow> (u8 \<times> u16) option" where
  "usint2decascii_while num p digit =
     (if p \<le> num then usint2decascii_while (num - p) p (digit + 1) else Some (digit, num))"

declare usint2decascii_while.simps [code]

text \<open>
  One pass of the \<^verbatim>\<open>for\<close> loop after the inner loop: choice (3) of the source. The
  space is \<^verbatim>\<open>digit = -16\<close>, which \<^verbatim>\<open>digit + '0'\<close> turns into 32.
\<close>

definition usint2decascii_choice :: "u8 \<Rightarrow> u8 \<Rightarrow> u8 \<Rightarrow> u8 \<times> u8" where
  "usint2decascii_choice pos digit digits =
     (if unat digits = USINT2DECASCII_MAX_DIGITS - 1
      then (if digit = 0
            then (if unat pos < USINT2DECASCII_MAX_DIGITS - 1 then (- 16, digits)
                  else (digit, digits))
            else (digit, pos))
      else (digit, digits))"

function usint2decascii_for ::
  "u8 \<Rightarrow> u16 \<Rightarrow> u8 \<Rightarrow> (nat \<Rightarrow> u8) \<Rightarrow> (u8 \<times> (nat \<Rightarrow> u8)) option" where
  "usint2decascii_for pos num digits buffer =
     (if pos < 5
      then (case usint2decascii_while num (powers ! unat pos) 0 of
              None \<Rightarrow> None
            | Some (digit, num') \<Rightarrow>
                (case usint2decascii_choice pos digit digits of
                   (digit', digits') \<Rightarrow>
                     usint2decascii_for (pos + 1) num' digits'
                       (buffer(unat pos := digit' + 48))))
      else Some (digits, buffer))"
  by pat_completeness auto
termination
  by (relation "measure (\<lambda>(pos, num, digits, buffer). 5 - unat pos)")
     (auto simp: word_less_nat_alt unat_word_ariths)

declare usint2decascii_for.simps [simp del]

definition usint2decascii :: "u16 \<Rightarrow> (nat \<Rightarrow> u8) \<Rightarrow> (u8 \<times> (nat \<Rightarrow> u8)) option" where
  "usint2decascii num buffer =
     usint2decascii_for 0 num (of_nat (USINT2DECASCII_MAX_DIGITS - 1)) buffer"

text \<open>
  \<^verbatim>\<open>ssd1306_numdec_buffer + digits\<close> is handed to \<^verbatim>\<open>D_PRINT_STR\<close>: the bytes of the
  array from index \<open>digits\<close> to its last index \<^verbatim>\<open>USINT2DECASCII_MAX_DIGITS\<close>.
\<close>

definition D_PRINT_INT :: "platform \<Rightarrow> u16 \<Rightarrow> mcu \<Rightarrow> mcu option" where
  "D_PRINT_INT E num s =
     (let terminated = (ssd1306_numdec_buffer s)(USINT2DECASCII_MAX_DIGITS := 0)
      in case usint2decascii num terminated of
           None \<Rightarrow> None
         | Some (digits, buffer) \<Rightarrow>
             D_PRINT_STR E (map buffer [unat digits ..< USINT2DECASCII_MAX_DIGITS + 1])
               (s\<lparr>ssd1306_numdec_buffer := buffer\<rparr>))"

section \<open>Observing the bus\<close>

text \<open>The hardware is responsive when no wait spins forever, whatever the status.\<close>

definition responsive :: "platform \<Rightarrow> bool" where
  "responsive E = (\<forall>h. twi E h \<noteq> Stall)"

text \<open>
  One bus session as it appears in the log: start condition, slave address, the control
  byte (0x00 opens a command stream, 0x40 a data stream), the bytes, stop condition.
\<close>

definition session :: "platform \<Rightarrow> u8 \<Rightarrow> u8 list \<Rightarrow> bus_event list" where
  "session E control bytes = [START, WRITE (SLA_W E), WRITE control] @ map WRITE bytes @ [STOP]"

definition command_session :: "platform \<Rightarrow> u8 list \<Rightarrow> bus_event list" where
  "command_session E bytes = session E 0x00 bytes"

definition data_session :: "platform \<Rightarrow> u8 list \<Rightarrow> bus_event list" where
  "data_session E bytes = session E 0x40 bytes"

text \<open>The three command bytes that address column \<open>x\<close> of page \<open>page\<close>.\<close>

definition setpos_bytes :: "u8 \<Rightarrow> u8 \<Rightarrow> u8 list" where
  "setpos_bytes x page = [0xB0 + page, drop_bit 4 (x AND 0xF0) OR 0x10, x AND 0x0F]"

text \<open>A page write: the position is set, then one data session carries one byte.\<close>

definition page_write :: "platform \<Rightarrow> u8 \<Rightarrow> u8 \<times> u8 \<Rightarrow> bus_event list" where
  "page_write E x pb = command_session E (setpos_bytes x (fst pb)) @ data_session E [snd pb]"

text \<open>
  A log is well bracketed when it is a sequence of whole sessions: a start only on a
  closed bus, bytes and the stop only inside a session, and the bus closed at the end.
  The flag says whether a session is open.
\<close>

fun bracketed :: "bool \<Rightarrow> bus_event list \<Rightarrow> bool" where
  "bracketed opened [] = (\<not> opened)"
| "bracketed opened (START # es) = (\<not> opened \<and> bracketed True es)"
| "bracketed opened (WRITE b # es) = (opened \<and> bracketed True es)"
| "bracketed opened (STOP # es) = (opened \<and> bracketed False es)"

text \<open>
  The number of acknowledgment checks that fail, 0 or 1, at the wait which follows the
  log \<open>h\<close>, where the program compares the status with \<open>expected\<close>.
\<close>

definition nack :: "platform \<Rightarrow> bus_event list \<Rightarrow> u8 \<Rightarrow> nat" where
  "nack E h expected =
     (case twi E h of Stall \<Rightarrow> 0 | Done status \<Rightarrow> if status AND 0xF8 \<noteq> expected then 1 else 0)"

text \<open>A function \<open>emits\<close> a list of bus actions when, from every state, it returns and has
  appended exactly these actions to the log.\<close>

definition emits :: "(mcu \<Rightarrow> mcu option) \<Rightarrow> bus_event list \<Rightarrow> bool" where
  "emits f es = (\<forall>s. \<exists>s'. f s = Some s' \<and> wire s' = wire s @ es)"

text \<open>
  The standard decimal notation of a natural number, most significant digit first and
  without leading zeros; \<open>digit_char d\<close> is the character of the digit \<open>d\<close>, whose code is
  48 + \<open>d\<close>.
\<close>

definition digit_char :: "nat \<Rightarrow> char" where
  "digit_char d = char_of (48 + d)"

fun decimal :: "nat \<Rightarrow> string" where
  "decimal n = (if n < 10 then [digit_char n] else decimal (n div 10) @ [digit_char (n mod 10)])"

declare decimal.simps [simp del]

text \<open>
  The string that starts at index \<open>digits\<close> of the scratch array and ends before its
  index \<^verbatim>\<open>USINT2DECASCII_MAX_DIGITS\<close>, where \<^verbatim>\<open>D_PRINT_INT\<close> puts the terminating zero.
\<close>

definition substring :: "(nat \<Rightarrow> u8) \<Rightarrow> u8 \<Rightarrow> string" where
  "substring buffer digits =
     map (\<lambda>i. char_of (unat (buffer i))) [unat digits ..< USINT2DECASCII_MAX_DIGITS]"

text \<open>
  The data session that prints one character: a blank column, then the five columns
  read from the font table.
\<close>

definition glyph_session :: "platform \<Rightarrow> u8 \<Rightarrow> bus_event list" where
  "glyph_session E ch =
     data_session E (0x00 # map (\<lambda>i. pgm_read_font E (unat (ch - 32) * 5 + i)) [0 ..< 5])"

text \<open>Whether a call returns, and with a well bracketed log.\<close>

definition returns_closed :: "(mcu \<Rightarrow> mcu option) \<Rightarrow> mcu \<Rightarrow> bool" where
  "returns_closed f s = (case f s of None \<Rightarrow> False | Some s' \<Rightarrow> bracketed False (wire s'))"

text \<open>
  A test bench: a display that acknowledges every step (status 0x08 after the start
  condition, 0x18 after the address, 0x28 after a byte), the usual values of the header
  constants, and the microcontroller after reset.
\<close>

definition acking_twi :: "bus_event list \<Rightarrow> response" where
  "acking_twi h =
     (case rev h of
        START # _ \<Rightarrow> Done 0x08
      | WRITE _ # START # _ \<Rightarrow> Done 0x18
      | _ \<Rightarrow> Done 0x28)"

definition bench :: platform where
  "bench = \<lparr>SLA_W = 0x78, ERROR_PIN = 4, OLED_CMD_SET_COLUMN_RANGE = 0x21,
            OLED_CMD_SET_PAGE_RANGE = 0x22, twi = acking_twi,
            flash_after_font = (\<lambda>_. 0)\<rparr>"

text \<open>The same bench with a display that acknowledges nothing: the status is 0x00 after
  every step, so every check fails.\<close>

definition deaf :: platform where
  "deaf = bench\<lparr>twi := (\<lambda>_. Done 0x00)\<rparr>"

definition reset :: mcu where
  "reset = \<lparr>wire = [], TWSR = 0xF8, interrupts = True, PORTD = 0, pin_toggles = 0,
            ssd1306_numdec_buffer = (\<lambda>_. 0)\<rparr>"

section \<open>Effects of the primitives and of the loops\<close>

lemma D_ERROR_loop_wire: "wire (D_ERROR_loop E i s) = wire s"
proof (induction E i s rule: D_ERROR_loop.induct)
  case (1 E i s)
  then show ?case
    by (subst D_ERROR_loop.simps) simp
qed

lemma D_ERROR_loop_toggles:
  "pin_toggles (D_ERROR_loop E i s) = pin_toggles s + (10 - unat i)"
proof (induction E i s rule: D_ERROR_loop.induct)
  case (1 E i s)
  show ?case
  proof (cases "i < 10")
    case True
    then have "unat i < 10"
      by (simp add: word_less_nat_alt)
    then have "unat (i + 1) = unat i + 1"
      by (simp add: unat_word_ariths)
    with True \<open>unat i < 10\<close> "1.IH" show ?thesis
      by (subst D_ERROR_loop.simps) simp
  next
    case False
    then have "10 \<le> unat i"
      by (simp add: word_less_nat_alt)
    with False show ?thesis
      by (subst D_ERROR_loop.simps) simp
  qed
qed

lemma D_ERROR_wire: "wire (D_ERROR E s) = wire s"
  by (simp add: D_ERROR_def D_ERROR_loop_wire)

lemma D_ERROR_toggles: "pin_toggles (D_ERROR E s) = pin_toggles s + 10"
  by (simp add: D_ERROR_def D_ERROR_loop_toggles)

lemma twi_action_responsive:
  assumes "responsive E"
  shows "\<exists>status. twi E (wire s @ [e]) = Done status
           \<and> twi_action E e s = Some (s\<lparr>wire := wire s @ [e], TWSR := status\<rparr>)"
proof (cases "twi E (wire s @ [e])")
  case Stall
  with assms show ?thesis
    by (simp add: responsive_def)
next
  case (Done status)
  then show ?thesis
    by (simp add: twi_action_def)
qed

lemma D_TX_effect:
  assumes "responsive E"
  shows "\<exists>s'. D_TX E d s = Some s' \<and> wire s' = wire s @ [WRITE d]
           \<and> pin_toggles s' = pin_toggles s + 10 * nack E (wire s @ [WRITE d]) 0x28"
proof -
  from twi_action_responsive [OF assms, of s "WRITE d"]
  obtain status where st: "twi E (wire s @ [WRITE d]) = Done status"
    and act: "twi_action E (WRITE d) s = Some (s\<lparr>wire := wire s @ [WRITE d], TWSR := status\<rparr>)"
    by blast
  show ?thesis
    by (simp add: D_TX_def act nack_def st D_ERROR_wire D_ERROR_toggles)
qed

lemma start_effect:
  assumes "responsive E"
  shows "\<exists>s'. do {
                s1 \<leftarrow> twi_action E START (s\<lparr>interrupts := False\<rparr>);
                let s2 = (if TWSR s1 AND 0xF8 \<noteq> 0x08 then D_ERROR E s1 else s1);
                s3 \<leftarrow> twi_action E (WRITE (SLA_W E)) s2;
                let s4 = (if TWSR s3 AND 0xF8 \<noteq> 0x18 then D_ERROR E s3 else s3);
                D_TX E c s4
              } = Some s'
           \<and> wire s' = wire s @ [START, WRITE (SLA_W E), WRITE c]
           \<and> pin_toggles s' = pin_toggles s
               + 10 * (nack E (wire s @ [START]) 0x08
                       + nack E (wire s @ [START, WRITE (SLA_W E)]) 0x18
                       + nack E (wire s @ [START, WRITE (SLA_W E), WRITE c]) 0x28)"
    (is "\<exists>s'. ?body = Some s' \<and> _")
proof -
  define s0 where "s0 = s\<lparr>interrupts := False\<rparr>"
  from twi_action_responsive [OF assms, of s0 START]
  obtain st1 where r1: "twi E (wire s @ [START]) = Done st1"
    and a1: "twi_action E START s0 = Some (s0\<lparr>wire := wire s @ [START], TWSR := st1\<rparr>)"
    by (auto simp: s0_def)
  define s1 where "s1 = s0\<lparr>wire := wire s @ [START], TWSR := st1\<rparr>"
  define s2 where "s2 = (if TWSR s1 AND 0xF8 \<noteq> 0x08 then D_ERROR E s1 else s1)"
  have w2: "wire s2 = wire s @ [START]"
    by (simp add: s2_def s1_def D_ERROR_wire)
  have t2: "pin_toggles s2 = pin_toggles s + 10 * nack E (wire s @ [START]) 0x08"
    by (simp add: s2_def s1_def s0_def D_ERROR_toggles nack_def r1)
  from twi_action_responsive [OF assms, of s2 "WRITE (SLA_W E)"] w2
  obtain st3 where r3: "twi E (wire s @ [START, WRITE (SLA_W E)]) = Done st3"
    and a3: "twi_action E (WRITE (SLA_W E)) s2
               = Some (s2\<lparr>wire := wire s @ [START, WRITE (SLA_W E)], TWSR := st3\<rparr>)"
    by auto
  define s3 where "s3 = s2\<lparr>wire := wire s @ [START, WRITE (SLA_W E)], TWSR := st3\<rparr>"
  define s4 where "s4 = (if TWSR s3 AND 0xF8 \<noteq> 0x18 then D_ERROR E s3 else s3)"
  have w4: "wire s4 = wire s @ [START, WRITE (SLA_W E)]"
    by (simp add: s4_def s3_def D_ERROR_wire)
  have t4: "pin_toggles s4 = pin_toggles s2 + 10 * nack E (wire s @ [START, WRITE (SLA_W E)]) 0x18"
    by (simp add: s4_def s3_def D_ERROR_toggles nack_def r3)
  from D_TX_effect [OF assms, of c s4] w4
  obtain s' where tx: "D_TX E c s4 = Some s'"
    and w': "wire s' = wire s @ [START, WRITE (SLA_W E), WRITE c]"
    and t': "pin_toggles s' = pin_toggles s4
               + 10 * nack E (wire s @ [START, WRITE (SLA_W E), WRITE c]) 0x28"
    by auto
  have "?body = Some s'"
    using a1 a3 tx
    by (simp add: s0_def [symmetric] s1_def [symmetric] s2_def [symmetric]
        s3_def [symmetric] s4_def [symmetric] Let_def)
  with w' t' t4 t2 show ?thesis
    by (simp add: algebra_simps)
qed

lemma D_START_CMD_effect:
  assumes "responsive E"
  shows "\<exists>s'. D_START_CMD E s = Some s'
           \<and> wire s' = wire s @ [START, WRITE (SLA_W E), WRITE 0x00]
           \<and> pin_toggles s' = pin_toggles s
               + 10 * (nack E (wire s @ [START]) 0x08
                       + nack E (wire s @ [START, WRITE (SLA_W E)]) 0x18
                       + nack E (wire s @ [START, WRITE (SLA_W E), WRITE 0x00]) 0x28)"
  using start_effect [OF assms, of s 0] by (simp add: D_START_CMD_def)

lemma D_START_DAT_effect:
  assumes "responsive E"
  shows "\<exists>s'. D_START_DAT E s = Some s'
           \<and> wire s' = wire s @ [START, WRITE (SLA_W E), WRITE 0x40]
           \<and> pin_toggles s' = pin_toggles s
               + 10 * (nack E (wire s @ [START]) 0x08
                       + nack E (wire s @ [START, WRITE (SLA_W E)]) 0x18
                       + nack E (wire s @ [START, WRITE (SLA_W E), WRITE 0x40]) 0x28)"
  using start_effect [OF assms, of s "0x40"] by (simp add: D_START_DAT_def)

lemma emits_bind:
  assumes "emits f a" and "emits g b" and "es = a @ b"
  shows "emits (\<lambda>s. f s \<bind> g) es"
  unfolding emits_def
proof
  fix s
  from assms(1) obtain s1 where f: "f s = Some s1" and w1: "wire s1 = wire s @ a"
    unfolding emits_def by blast
  from assms(2) obtain s2 where g: "g s1 = Some s2" and w2: "wire s2 = wire s1 @ b"
    unfolding emits_def by blast
  from f g w1 w2 assms(3) show "\<exists>s'. f s \<bind> g = Some s' \<and> wire s' = wire s @ es"
    by simp
qed

lemma emits_eq:
  assumes "\<And>s. f s = g s" and "emits g es"
  shows "emits f es"
  using assms by (simp add: emits_def)

lemma emits_D_TX: "responsive E \<Longrightarrow> emits (D_TX E d) [WRITE d]"
  unfolding emits_def using D_TX_effect by blast

lemma emits_D_START_CMD:
  "responsive E \<Longrightarrow> emits (D_START_CMD E) [START, WRITE (SLA_W E), WRITE 0x00]"
  unfolding emits_def using D_START_CMD_effect by blast

lemma emits_D_STOP: "emits D_STOP [STOP]"
  by (simp add: emits_def D_STOP_def)

lemma emits_D_SETPOS:
  assumes "responsive E"
  shows "emits (D_SETPOS E x y) (command_session E (setpos_bytes x y))"
  by (rule emits_eq [OF D_SETPOS_def])
     ((rule emits_bind emits_D_START_CMD emits_D_TX emits_D_STOP assms
       | simp add: command_session_def session_def setpos_bytes_def)+)

lemma emits_D_START_DAT:
  "responsive E \<Longrightarrow> emits (D_START_DAT E) [START, WRITE (SLA_W E), WRITE 0x40]"
  unfolding emits_def using D_START_DAT_effect by blast

lemma emits_Some: "emits Some []"
  by (simp add: emits_def)

lemmas emits_basic =
  emits_bind emits_D_START_CMD emits_D_START_DAT emits_D_TX emits_D_STOP emits_D_SETPOS


lemma emits_D_ON:
  assumes "responsive E"
  shows "emits (D_ON E) (command_session E [0xAF])"
  by (rule emits_eq [OF D_ON_def])
     ((rule emits_basic assms | simp add: command_session_def session_def)+)

lemma emits_D_OFF:
  assumes "responsive E"
  shows "emits (D_OFF E) (command_session E [0xAE])"
  by (rule emits_eq [OF D_OFF_def])
     ((rule emits_basic assms | simp add: command_session_def session_def)+)

lemma emits_D_CONTRAST:
  assumes "responsive E"
  shows "emits (D_CONTRAST E contrast) (command_session E [0x81, contrast])"
  by (rule emits_eq [OF D_CONTRAST_def])
     ((rule emits_basic assms | simp add: command_session_def session_def)+)

lemma D_INIT_loop_effect:
  assumes "responsive E"
  shows "\<exists>s'. D_INIT_loop E i s = Some s'
           \<and> wire s' = wire s @ map WRITE (drop (unat i) init_sequence)"
  using assms
proof (induction E i s rule: D_INIT_loop.induct)
  case (1 E i s)
  show ?case
  proof (cases "unat i < length init_sequence")
    case True
    then have suc: "unat (i + 1) = Suc (unat i)"
      by (simp add: init_sequence_def unat_word_ariths)
    from D_TX_effect [OF "1.prems", of "init_sequence ! unat i" s]
    obtain s1 where tx: "D_TX E (init_sequence ! unat i) s = Some s1"
      and w1: "wire s1 = wire s @ [WRITE (init_sequence ! unat i)]"
      by blast
    from "1.IH" [OF True tx "1.prems"]
    obtain s' where loop: "D_INIT_loop E (i + 1) s1 = Some s'"
      and w': "wire s' = wire s1 @ map WRITE (drop (unat (i + 1)) init_sequence)"
      by blast
    have "drop (unat i) init_sequence
            = init_sequence ! unat i # drop (Suc (unat i)) init_sequence"
      using True by (simp add: Cons_nth_drop_Suc)
    with True tx loop w1 w' suc show ?thesis
      by (subst D_INIT_loop.simps) simp
  next
    case False
    then show ?thesis
      by (subst D_INIT_loop.simps) simp
  qed
qed

lemma emits_D_INIT_loop:
  "responsive E \<Longrightarrow> emits (D_INIT_loop E 0) (map WRITE init_sequence)"
  unfolding emits_def using D_INIT_loop_effect [of E 0] by simp

lemma emits_D_INIT:
  assumes "responsive E"
  shows "emits (D_INIT E)
           (command_session E
              (init_sequence @ [OLED_CMD_SET_COLUMN_RANGE E, 0x00, 0x7F,
                                OLED_CMD_SET_PAGE_RANGE E, 0, 0x07]))"
  by (rule emits_eq [OF D_INIT_def])
     ((rule emits_basic emits_D_INIT_loop assms | simp add: command_session_def session_def)+)

lemma D_CLEAR_loop_effect:
  assumes "responsive E"
  shows "\<exists>s'. D_CLEAR_loop E i s = Some s'
           \<and> wire s' = wire s @ replicate (1024 - unat i) (WRITE 0)"
  using assms
proof (induction E i s rule: D_CLEAR_loop.induct)
  case (1 E i s)
  show ?case
  proof (cases "i < 128 * 8")
    case True
    then have lt: "unat i < 1024"
      by (simp add: word_less_nat_alt)
    then have suc: "unat (i + 1) = Suc (unat i)"
      by (simp add: unat_word_ariths)
    from D_TX_effect [OF "1.prems", of 0 s]
    obtain s1 where tx: "D_TX E 0 s = Some s1" and w1: "wire s1 = wire s @ [WRITE 0]"
      by blast
    from "1.IH" [OF True tx "1.prems"]
    obtain s' where loop: "D_CLEAR_loop E (i + 1) s1 = Some s'"
      and w': "wire s' = wire s1 @ replicate (1024 - unat (i + 1)) (WRITE 0)"
      by blast
    from lt have "replicate (1024 - unat i) (WRITE 0)
                    = WRITE 0 # replicate (1024 - Suc (unat i)) (WRITE 0)"
      by (simp add: Suc_diff_Suc flip: replicate_Suc)
    with True tx loop w1 w' suc show ?thesis
      by (subst D_CLEAR_loop.simps) simp
  next
    case False
    then have "1024 \<le> unat i"
      by (simp add: word_less_nat_alt)
    with False show ?thesis
      by (subst D_CLEAR_loop.simps) simp
  qed
qed

lemma emits_D_CLEAR_loop:
  "responsive E \<Longrightarrow> emits (D_CLEAR_loop E 0) (replicate 1024 (WRITE 0))"
  unfolding emits_def using D_CLEAR_loop_effect [of E 0] by simp

lemma emits_D_CLEAR:
  assumes "responsive E"
  shows "emits (D_CLEAR E)
           (command_session E (setpos_bytes 0 0) @ data_session E (replicate 1024 0))"
  by (rule emits_eq [OF D_CLEAR_def])
     ((rule emits_basic emits_D_CLEAR_loop assms
       | simp add: data_session_def session_def)+)

lemma D_DRAW_HOR_loop_effect:
  assumes "responsive E"
  shows "\<exists>s'. D_DRAW_HOR_loop E dot_byte len i s = Some s'
           \<and> wire s' = wire s @ replicate (unat len - unat i) (WRITE dot_byte)"
  using assms
proof (induction E dot_byte len i s rule: D_DRAW_HOR_loop.induct)
  case (1 E dot_byte len i s)
  show ?case
  proof (cases "i < len")
    case True
    then have lt: "unat i < unat len"
      by (simp add: word_less_nat_alt)
    moreover have "unat len < 256"
      using unsigned_less [of len, where ?'a = nat] by simp
    ultimately have suc: "unat (i + 1) = Suc (unat i)"
      by (simp add: unat_word_ariths)
    from D_TX_effect [OF "1.prems", of dot_byte s]
    obtain s1 where tx: "D_TX E dot_byte s = Some s1"
      and w1: "wire s1 = wire s @ [WRITE dot_byte]"
      by blast
    from "1.IH" [OF True tx "1.prems"]
    obtain s' where loop: "D_DRAW_HOR_loop E dot_byte len (i + 1) s1 = Some s'"
      and w': "wire s' = wire s1 @ replicate (unat len - unat (i + 1)) (WRITE dot_byte)"
      by blast
    from lt have "replicate (unat len - unat i) (WRITE dot_byte)
                    = WRITE dot_byte # replicate (unat len - Suc (unat i)) (WRITE dot_byte)"
      by (simp add: Suc_diff_Suc flip: replicate_Suc)
    with True tx loop w1 w' suc show ?thesis
      by (subst D_DRAW_HOR_loop.simps) simp
  next
    case False
    then have "unat len \<le> unat i"
      by (simp add: word_less_nat_alt)
    with False show ?thesis
      by (subst D_DRAW_HOR_loop.simps) simp
  qed
qed

lemma emits_D_DRAW_HOR_loop:
  "responsive E \<Longrightarrow>
     emits (D_DRAW_HOR_loop E dot_byte len 0) (replicate (unat len) (WRITE dot_byte))"
  unfolding emits_def using D_DRAW_HOR_loop_effect [of E dot_byte len 0] by simp

lemma emits_D_DRAW_HOR:
  assumes "responsive E"
  shows "emits (D_DRAW_HOR E xpos ypos len)
           (command_session E (setpos_bytes xpos (ypos div 8))
            @ data_session E (replicate (unat len) (push_bit (unat (ypos mod 8)) 1)))"
proof -
  have eq: "D_DRAW_HOR E xpos ypos len s =
      D_SETPOS E xpos (ypos div 8) s \<bind>
        (\<lambda>s1. D_START_DAT E s1 \<bind>
          (\<lambda>s2. D_DRAW_HOR_loop E (push_bit (unat (ypos mod 8)) 1) len 0 s2 \<bind> D_STOP))" for s
    by (simp add: D_DRAW_HOR_def Let_def)
  show ?thesis
    by (rule emits_eq [OF eq])
       ((rule emits_basic emits_D_DRAW_HOR_loop assms
         | simp add: data_session_def session_def)+)
qed

subsection \<open>Vertical lines\<close>

lemma split_page: "((a :: nat) + l) div 8 = a div 8 + (a mod 8 + l) div 8"
proof -
  have "a + l = 8 * (a div 8) + (a mod 8 + l)"
    by simp
  then have "(a + l) div 8 = (8 * (a div 8) + (a mod 8 + l)) div 8"
    by (rule arg_cong)
  also have "\<dots> = a div 8 + (a mod 8 + l) div 8"
    by (rule div_mult_self4) simp
  finally show ?thesis .
qed

lemma ceil8:
  assumes "(t :: nat) mod 8 \<noteq> 0"
  shows "(t + 7) div 8 = t div 8 + 1"
proof -
  have "t mod 8 < 8"
    by simp
  with assms have "(t mod 8 + 7) div 8 = 1"
    by (intro div_nat_eqI) simp_all
  with split_page [of t 7] show ?thesis
    by simp
qed

lemma mod_page: "((a :: nat) mod 8 + l) mod 8 = (a + l) mod 8"
  by (simp add: mod_add_left_eq)

lemma D_DRAW_VERT_loop_effect:
  assumes "responsive E"
  shows "\<exists>s'. D_DRAW_VERT_loop E xpos ypage_end i s = Some s'
           \<and> wire s' = wire s
                @ concat (map (\<lambda>p. page_write E xpos (of_nat p, 0xFF)) [unat i ..< unat ypage_end])"
  using assms
proof (induction E xpos ypage_end i s rule: D_DRAW_VERT_loop.induct)
  case (1 E xpos ypage_end i s)
  note resp = "1.prems"
  show ?case
  proof (cases "i < ypage_end")
    case True
    then have lt: "unat i < unat ypage_end"
      by (simp add: word_less_nat_alt)
    moreover have "unat ypage_end < 256"
      using unsigned_less [of ypage_end, where ?'a = nat] by simp
    ultimately have suc: "unat (i + 1) = Suc (unat i)"
      by (simp add: unat_word_ariths)
    from emits_D_SETPOS [OF resp, of xpos i]
    obtain s1 where c1: "D_SETPOS E xpos i s = Some s1"
      and w1: "wire s1 = wire s @ command_session E (setpos_bytes xpos i)"
      unfolding emits_def by blast
    from emits_D_START_DAT [OF resp]
    obtain s2 where c2: "D_START_DAT E s1 = Some s2"
      and w2: "wire s2 = wire s1 @ [START, WRITE (SLA_W E), WRITE 0x40]"
      unfolding emits_def by blast
    from emits_D_TX [OF resp, of "0xFF"]
    obtain s3 where c3: "D_TX E 0xFF s2 = Some s3" and w3: "wire s3 = wire s2 @ [WRITE 0xFF]"
      unfolding emits_def by blast
    from emits_D_STOP
    obtain s4 where c4: "D_STOP s3 = Some s4" and w4: "wire s4 = wire s3 @ [STOP]"
      unfolding emits_def by blast
    from "1.IH" [OF True c1 c2 c3 c4 resp]
    obtain s' where loop: "D_DRAW_VERT_loop E xpos ypage_end (i + 1) s4 = Some s'"
      and w': "wire s' = wire s4
                 @ concat (map (\<lambda>p. page_write E xpos (of_nat p, 0xFF))
                             [unat (i + 1) ..< unat ypage_end])"
      by blast
    have "wire s4 = wire s @ page_write E xpos (i, 0xFF)"
      by (simp add: w4 w3 w2 w1 page_write_def data_session_def session_def)
    moreover from lt have "[unat i ..< unat ypage_end] = unat i # [Suc (unat i) ..< unat ypage_end]"
      by (simp add: upt_conv_Cons)
    ultimately have "wire s' = wire s
        @ concat (map (\<lambda>p. page_write E xpos (of_nat p, 0xFF)) [unat i ..< unat ypage_end])"
      using w' suc by simp
    with True c1 c2 c3 c4 loop show ?thesis
      by (subst D_DRAW_VERT_loop.simps) simp
  next
    case False
    then have "unat ypage_end \<le> unat i"
      by (simp add: word_less_nat_alt)
    with False show ?thesis
      by (subst D_DRAW_VERT_loop.simps) simp
  qed
qed

lemma emits_page_write:
  assumes "responsive E"
  shows "emits (\<lambda>s. D_SETPOS E xpos page s \<bind>
                  (\<lambda>s1. D_START_DAT E s1 \<bind> (\<lambda>s2. D_TX E byte s2 \<bind> D_STOP)))
           (page_write E xpos (page, byte))"
  by ((rule emits_basic assms
       | simp add: page_write_def data_session_def session_def)+)

lemma page_numbers:
  fixes ypos len :: u8
  defines "ps \<equiv> unat ypos div 8" and "pe \<equiv> (unat ypos + unat len) div 8"
  shows "ypos div 8 = of_nat ps" and "ps \<le> pe" and "pe < 64"
    and "unat (of_nat pe - ypos div 8 :: u8) = pe - ps"
    and "unat (ypos div 8 + 1) = Suc ps"
    and "unat (of_nat pe :: u8) = pe"
proof -
  have y: "unat ypos < 256" and l: "unat len < 256"
    using unsigned_less [of ypos, where ?'a = nat] unsigned_less [of len, where ?'a = nat]
    by simp_all
  show le: "ps \<le> pe"
    by (simp add: ps_def pe_def div_le_mono)
  from y l show pe: "pe < 64"
    by (simp add: pe_def)
  from y have ps: "ps < 32"
    by (simp add: ps_def)
  have u: "unat (ypos div 8) = ps"
    by (simp add: ps_def unat_div)
  then have "of_nat (unat (ypos div 8)) = (of_nat ps :: u8)"
    by simp
  then show start: "ypos div 8 = of_nat ps"
    by simp
  from pe show upe: "unat (of_nat pe :: u8) = pe"
    by (simp add: unat_of_nat)
  from u upe le have "ypos div 8 \<le> (of_nat pe :: u8)"
    by (simp add: word_le_nat_alt)
  then show "unat (of_nat pe - ypos div 8 :: u8) = pe - ps"
    using u upe by (simp add: unat_sub)
  from ps u show "unat (ypos div 8 + 1) = Suc ps"
    by (simp add: unat_word_ariths)
qed

lemma emits_D_DRAW_VERT_single:
  assumes "responsive E" and "(unat ypos + unat len) div 8 = unat ypos div 8"
  shows "emits (D_DRAW_VERT E xpos ypos len)
           (page_write E xpos
              (ypos div 8,
               push_bit (unat ypos mod 8) 0xFF AND drop_bit ((unat ypos + unat len) mod 8) 0xFF))"
proof -
  have span: "(of_nat ((unat ypos + unat len) div 8) :: u8) - ypos div 8 = 0"
    using assms(2) page_numbers(1) [of ypos] by simp
  have eq: "D_DRAW_VERT E xpos ypos len s =
      D_SETPOS E xpos (ypos div 8) s \<bind>
        (\<lambda>s1. D_START_DAT E s1 \<bind>
          (\<lambda>s2. D_TX E (push_bit (unat ypos mod 8) 0xFF
                          AND drop_bit ((unat ypos + unat len) mod 8) 0xFF) s2 \<bind> D_STOP))" for s
    unfolding D_DRAW_VERT_def Let_def by (simp only: span if_True unat_mod) simp
  show ?thesis
    by (rule emits_eq [OF eq]) (rule emits_page_write [OF assms(1)])
qed

lemma emits_D_DRAW_VERT_multi:
  assumes "responsive E" and "(unat ypos + unat len) div 8 \<noteq> unat ypos div 8"
  shows "emits (D_DRAW_VERT E xpos ypos len)
           (page_write E xpos (ypos div 8, push_bit (unat ypos mod 8) 0xFF)
            @ concat (map (\<lambda>p. page_write E xpos (of_nat p, 0xFF))
                        [Suc (unat ypos div 8) ..< (unat ypos + unat len) div 8])
            @ page_write E xpos (of_nat ((unat ypos + unat len) div 8),
                                 drop_bit ((unat ypos + unat len) mod 8) 0xFF))"
    (is "emits _ (?first @ ?middle @ ?last)")
proof -
  define ps where "ps = unat ypos div 8"
  define pe where "pe = (unat ypos + unat len) div 8"
  define ypage_end :: u8 where "ypage_end = of_nat pe"
  note pn2 = page_numbers(2) [of ypos len, folded ps_def pe_def]
  note pn4 = page_numbers(4) [of ypos len, folded ps_def pe_def]
  note pn5 = page_numbers(5) [of ypos, folded ps_def]
  note pn6 = page_numbers(6) [of ypos len, folded ps_def pe_def]
  have span: "unat (ypage_end - ypos div 8) = pe - ps"
    using pn4 by (simp add: ypage_end_def)
  from assms(2) pn2 have "ps < pe"
    by (simp add: ps_def pe_def)
  have nz: "ypage_end - ypos div 8 \<noteq> 0"
  proof
    assume "ypage_end - ypos div 8 = 0"
    then have "unat (ypage_end - ypos div 8) = 0"
      by simp
    with span \<open>ps < pe\<close> show False
      by simp
  qed
  have one: "1 < ypage_end - ypos div 8 \<longleftrightarrow> Suc ps < pe"
    using span \<open>ps < pe\<close> by (auto simp: word_less_nat_alt)
  have loop: "emits (\<lambda>s. if 1 < ypage_end - ypos div 8
                          then D_DRAW_VERT_loop E xpos ypage_end (ypos div 8 + 1) s
                          else Some s) ?middle"
  proof (cases "Suc ps < pe")
    case True
    with one D_DRAW_VERT_loop_effect [OF assms(1), of xpos ypage_end "ypos div 8 + 1"]
    show ?thesis
      using pn5 pn6 by (simp add: emits_def ypage_end_def ps_def pe_def)
  next
    case False
    with one show ?thesis
      by (simp add: emits_def ps_def pe_def)
  qed
  have eq: "D_DRAW_VERT E xpos ypos len s =
      (D_SETPOS E xpos (ypos div 8) s \<bind>
        (\<lambda>s1. D_START_DAT E s1 \<bind>
          (\<lambda>s2. D_TX E (push_bit (unat ypos mod 8) 0xFF) s2 \<bind> D_STOP))) \<bind>
      (\<lambda>s4. (if 1 < ypage_end - ypos div 8
              then D_DRAW_VERT_loop E xpos ypage_end (ypos div 8 + 1) s4
              else Some s4) \<bind>
        (\<lambda>s5. D_SETPOS E xpos ypage_end s5 \<bind>
          (\<lambda>s6. D_START_DAT E s6 \<bind>
            (\<lambda>s7. D_TX E (drop_bit ((unat ypos + unat len) mod 8) 0xFF) s7 \<bind> D_STOP))))" for s
    using nz unfolding D_DRAW_VERT_def Let_def ypage_end_def pe_def
    by (simp add: unat_mod)
  show ?thesis
    by (rule emits_eq [OF eq])
       (rule emits_bind [OF emits_page_write [OF assms(1)]
                            emits_bind [OF loop emits_page_write [OF assms(1)] refl]],
        simp add: ypage_end_def pe_def)
qed

text \<open>A line that ends before the last pixel row of its page takes one page write.\<close>

lemma D_DRAW_VERT_inside_page:
  assumes "responsive E" and "unat y mod 8 + unat len < 8"
  shows "\<exists>s'. D_DRAW_VERT E x y len s = Some s'
           \<and> wire s' = wire s
                @ page_write E x
                    (y div 8,
                     push_bit (unat y mod 8) 0xFF AND drop_bit ((unat y + unat len) mod 8) 0xFF)"
proof -
  from assms(2) have "(unat y + unat len) div 8 = unat y div 8"
    using split_page [of "unat y" "unat len"] by simp
  from emits_D_DRAW_VERT_single [OF assms(1) this, of x] show ?thesis
    by (simp add: emits_def)
qed

text \<open>
  The left border of the demonstration, \<^verbatim>\<open>D_DRAW_VERT(0, 0, 64)\<close>: its ninth and last
  page write addresses page 8, one past the pages 0 to 7 of the display.
\<close>

lemma D_DRAW_VERT_demo_border:
  "map_option (\<lambda>s. drop 96 (wire s)) (D_DRAW_VERT bench 0 0 64 reset)
     = Some (page_write bench 0 (8, 0xFF))"
  by code_simp

subsection \<open>Decimal conversion\<close>

lemma usint2decascii_while_result:
  assumes "p \<noteq> 0"
  shows "usint2decascii_while num p digit
           = Some (digit + of_nat (unat num div unat p), of_nat (unat num mod unat p))"
proof (induction "unat num" arbitrary: num digit rule: less_induct)
  case less
  have pos: "0 < unat p"
    using assms by (simp add: unat_gt_0)
  show ?case
  proof (cases "p \<le> num")
    case True
    then have le: "unat p \<le> unat num"
      by (simp add: word_le_nat_alt)
    from True have sub: "unat (num - p) = unat num - unat p"
      by (simp add: unat_sub)
    with le pos have "unat (num - p) < unat num"
      by simp
    from less [OF this]
    have IH: "usint2decascii_while (num - p) p (digit + 1)
                = Some (digit + 1 + of_nat (unat (num - p) div unat p),
                        of_nat (unat (num - p) mod unat p))" .
    from le pos have d: "unat num div unat p = Suc ((unat num - unat p) div unat p)"
      by (simp add: le_div_geq)
    from le have m: "unat num mod unat p = (unat num - unat p) mod unat p"
      by (simp add: le_mod_geq)
    show ?thesis
      by (subst usint2decascii_while.simps) (simp add: True IH sub d m)
  next
    case False
    then have "unat num < unat p"
      by (simp add: word_le_nat_alt)
    with False show ?thesis
      by (subst usint2decascii_while.simps) simp
  qed
qed

lemma usint2decascii_for_step:
  assumes "unat pos < 5"
  shows "usint2decascii_for pos num digits buffer =
           (case usint2decascii_choice pos
                   (of_nat (unat num div unat (powers ! unat pos))) digits of
              (digit', digits') \<Rightarrow>
                usint2decascii_for (pos + 1)
                  (of_nat (unat num mod unat (powers ! unat pos))) digits'
                  (buffer(unat pos := digit' + 48)))"
proof -
  from assms have "unat pos \<in> {0, 1, 2, 3, 4}"
    by auto
  then have "powers ! unat pos \<noteq> 0"
    by (auto simp: powers_def)
  moreover from assms have "pos < 5"
    by (simp add: word_less_nat_alt)
  ultimately show ?thesis
    by (subst usint2decascii_for.simps) (simp add: usint2decascii_while_result)
qed

lemma usint2decascii_for_exit:
  "usint2decascii_for 5 num digits buffer = Some (digits, buffer)"
  by (subst usint2decascii_for.simps) simp

lemmas usint2decascii_for_unrolled =
  usint2decascii_for_step [of 0, simplified powers_def, simplified]
  usint2decascii_for_step [of 1, simplified powers_def, simplified]
  usint2decascii_for_step [of 2, simplified powers_def, simplified]
  usint2decascii_for_step [of 3, simplified powers_def, simplified]
  usint2decascii_for_step [of 4, simplified powers_def, simplified]

lemma digit_byte_zero:
  assumes "d < 10"
  shows "(of_nat d = (0 :: u8)) = (d = 0)"
proof -
  from assms have u: "unat (of_nat d :: u8) = d"
    by (simp add: unat_of_nat)
  show ?thesis
  proof
    assume "of_nat d = (0 :: u8)"
    then have "unat (of_nat d :: u8) = 0"
      by simp
    with u show "d = 0"
      by simp
  next
    assume "d = 0"
    then show "of_nat d = (0 :: u8)"
      by simp
  qed
qed

lemma usint2decascii_digits:
  fixes d0 d1 d2 d3 d4 :: nat
  assumes d: "d0 < 10" "d1 < 10" "d2 < 10" "d3 < 10" "d4 < 10"
    and v: "v = 10000 * d0 + (1000 * d1 + (100 * d2 + (10 * d3 + d4)))" "v < 65536"
  shows "usint2decascii (of_nat v) buffer =
           Some (if d0 \<noteq> 0 then 0 else if d1 \<noteq> 0 then 1 else if d2 \<noteq> 0 then 2
                 else if d3 \<noteq> 0 then 3 else 4,
                 buffer
                   (0 := if d0 = 0 then 32 else of_nat d0 + 48,
                    1 := if d0 = 0 \<and> d1 = 0 then 32 else of_nat d1 + 48,
                    2 := if d0 = 0 \<and> d1 = 0 \<and> d2 = 0 then 32 else of_nat d2 + 48,
                    3 := if d0 = 0 \<and> d1 = 0 \<and> d2 = 0 \<and> d3 = 0 then 32 else of_nat d3 + 48,
                    4 := of_nat d4 + 48))"
proof -
  define r3 where "r3 = 10 * d3 + d4"
  define r2 where "r2 = 100 * d2 + r3"
  define r1 where "r1 = 1000 * d1 + r2"
  from d have b3: "r3 < 100" and b2: "r2 < 1000" and b1: "r1 < 10000"
    by (simp_all add: r1_def r2_def r3_def)
  have v0: "unat (of_nat v :: u16) = v"
    using v(2) by (simp add: unat_of_nat)
  have u1: "unat (of_nat r1 :: u16) = r1" and u2: "unat (of_nat r2 :: u16) = r2"
    and u3: "unat (of_nat r3 :: u16) = r3" and u4: "unat (of_nat d4 :: u16) = d4"
    using b1 b2 b3 d(5) by (simp_all add: unat_of_nat)
  have s0: "v div 10000 = d0" "v mod 10000 = r1"
    using b1 by (simp_all add: v(1) r1_def r2_def r3_def)
  have s1: "r1 div 1000 = d1" "r1 mod 1000 = r2"
    using b2 by (simp_all add: r1_def)
  have s2: "r2 div 100 = d2" "r2 mod 100 = r3"
    using b3 by (simp_all add: r2_def)
  have s3: "r3 div 10 = d3" "r3 mod 10 = d4"
    using d(5) by (simp_all add: r3_def)
  have last: "(ucast (of_nat d4 :: u16) :: u8) = of_nat d4"
    using d(5) by (simp add: unsigned_of_nat take_bit_nat_eq_self)
  note z = digit_byte_zero [OF d(1)] digit_byte_zero [OF d(2)] digit_byte_zero [OF d(3)]
    digit_byte_zero [OF d(4)] digit_byte_zero [OF d(5)]
  show ?thesis
    by (simp add: usint2decascii_def USINT2DECASCII_MAX_DIGITS_def
        usint2decascii_for_unrolled usint2decascii_for_exit usint2decascii_choice_def
        v0 u1 u2 u3 u4 s0 s1 s2 s3 last z)
qed

lemma decimal_step:
  assumes "d < 10"
  shows "decimal (10 * q + d) = (if q = 0 then [digit_char d] else decimal q @ [digit_char d])"
proof -
  from assms have "(10 * q + d) div 10 = q" and "(10 * q + d) mod 10 = d"
    by simp_all
  moreover from assms have "(10 * q + d < 10) = (q = 0)"
    by auto
  ultimately show ?thesis
    by (subst decimal.simps) simp
qed

lemma decimal_digits:
  fixes d0 d1 d2 d3 d4 :: nat
  assumes d: "d0 < 10" "d1 < 10" "d2 < 10" "d3 < 10" "d4 < 10"
    and v: "v = 10000 * d0 + (1000 * d1 + (100 * d2 + (10 * d3 + d4)))"
  shows "decimal v =
           (if d0 \<noteq> 0 then map digit_char [d0, d1, d2, d3, d4]
            else if d1 \<noteq> 0 then map digit_char [d1, d2, d3, d4]
            else if d2 \<noteq> 0 then map digit_char [d2, d3, d4]
            else if d3 \<noteq> 0 then map digit_char [d3, d4]
            else map digit_char [d4])"
proof -
  define q1 where "q1 = 10 * d0 + d1"
  define q2 where "q2 = 10 * q1 + d2"
  define q3 where "q3 = 10 * q2 + d3"
  have z1: "(q1 = 0) = (d0 = 0 \<and> d1 = 0)"
    and z2: "(q2 = 0) = (q1 = 0 \<and> d2 = 0)"
    and z3: "(q3 = 0) = (q2 = 0 \<and> d3 = 0)"
    by (simp_all add: q1_def q2_def q3_def)
  have "decimal d0 = [digit_char d0]"
    using d(1) by (subst decimal.simps) simp
  then have s1: "decimal q1 = (if d0 = 0 then [digit_char d1] else [digit_char d0, digit_char d1])"
    unfolding q1_def by (simp add: decimal_step [OF d(2)])
  have s2: "decimal q2 = (if q1 = 0 then [digit_char d2] else decimal q1 @ [digit_char d2])"
    unfolding q2_def by (rule decimal_step [OF d(3)])
  have s3: "decimal q3 = (if q2 = 0 then [digit_char d3] else decimal q2 @ [digit_char d3])"
    unfolding q3_def by (rule decimal_step [OF d(4)])
  have s4: "decimal (10 * q3 + d4) = (if q3 = 0 then [digit_char d4] else decimal q3 @ [digit_char d4])"
    by (rule decimal_step [OF d(5)])
  have "v = 10 * q3 + d4"
    by (simp add: v q1_def q2_def q3_def)
  then show ?thesis
    by (simp add: s4 s3 s2 s1 z1 z2 z3)
qed

lemma digits_of:
  fixes v :: nat
  assumes "v < 65536"
  obtains d0 d1 d2 d3 d4 :: nat
  where "d0 < 10" "d1 < 10" "d2 < 10" "d3 < 10" "d4 < 10"
    and "v = 10000 * d0 + (1000 * d1 + (100 * d2 + (10 * d3 + d4)))"
proof -
  define q1 where "q1 = v div 10"
  define q2 where "q2 = q1 div 10"
  define q3 where "q3 = q2 div 10"
  define q4 where "q4 = q3 div 10"
  have e1: "v = 10 * q1 + v mod 10" and e2: "q1 = 10 * q2 + q1 mod 10"
    and e3: "q2 = 10 * q3 + q2 mod 10" and e4: "q3 = 10 * q4 + q3 mod 10"
    by (simp_all add: q1_def q2_def q3_def q4_def)
  have "v = 10000 * q4 + (1000 * (q3 mod 10) + (100 * (q2 mod 10) + (10 * (q1 mod 10) + v mod 10)))"
    using e1 e2 e3 e4 by linarith
  moreover from this assms have "q4 < 10"
    by linarith
  ultimately show thesis
    by (intro that [of q4 "q3 mod 10" "q2 mod 10" "q1 mod 10" "v mod 10"]) simp_all
qed

lemma digit_byte:
  assumes "d < 10"
  shows "unat (of_nat d + 48 :: u8) = 48 + d"
  using assms by (simp add: unat_word_ariths unat_of_nat)

lemma usint2decascii_result:
  "\<exists>digits bytes.
      unat digits + length bytes = 5 \<and> 0 \<notin> set bytes
      \<and> map (\<lambda>b. char_of (unat b)) bytes = decimal (unat n)
      \<and> (\<forall>buffer. \<exists>b. usint2decascii n buffer = Some (digits, b)
                       \<and> map b [unat digits ..< 5] = bytes \<and> b 5 = buffer 5
                       \<and> map b [0 ..< unat digits] = replicate (unat digits) 32)"
proof -
  have "unat n < 65536"
    using unsigned_less [of n, where ?'a = nat] by simp
  from digits_of [OF this]
  obtain d0 d1 d2 d3 d4 :: nat
    where d: "d0 < 10" "d1 < 10" "d2 < 10" "d3 < 10" "d4 < 10"
      and v: "unat n = 10000 * d0 + (1000 * d1 + (100 * d2 + (10 * d3 + d4)))"
    by blast
  define digits :: u8 where
    "digits = (if d0 \<noteq> 0 then 0 else if d1 \<noteq> 0 then 1 else if d2 \<noteq> 0 then 2
               else if d3 \<noteq> 0 then 3 else 4)"
  define c :: "nat \<Rightarrow> u8" where "c = (\<lambda>d. of_nat d + 48)"
  define bytes where
    "bytes = (if d0 \<noteq> 0 then map c [d0, d1, d2, d3, d4]
              else if d1 \<noteq> 0 then map c [d1, d2, d3, d4]
              else if d2 \<noteq> 0 then map c [d2, d3, d4]
              else if d3 \<noteq> 0 then map c [d3, d4]
              else map c [d4])"
  have ranges: "[0 ..< 5] = [0, 1, 2, 3, 4]" "[Suc 0 ..< 5] = [1, 2, 3, 4]" "[2 ..< 5] = [2, 3, 4]"
    "[3 ..< 5] = [3, 4]" "[4 ..< 5] = [4 :: nat]"
    "[0 ..< 2] = [0, 1]" "[0 ..< 3] = [0, 1, 2]" "[0 ..< 4] = [0, 1, 2, 3 :: nat]"
    by (simp_all add: upt_conv_Cons)
  have blanks: "replicate 2 x = [x, x]" "replicate 3 x = [x, x, x]"
    "replicate 4 x = [x, x, x, x]" for x :: u8
    by (simp_all add: numeral_2_eq_2 numeral_3_eq_3 eval_nat_numeral)
  have cu: "unat (c d) = 48 + d" if "d < 10" for d
    using that by (simp add: c_def digit_byte)
  have cz: "c d \<noteq> 0" if "d < 10" for d
  proof
    assume "c d = 0"
    then have "unat (c d) = 0"
      by simp
    with cu [OF that] show False
      by simp
  qed
  have cc: "char_of (unat (c d)) = digit_char d" if "d < 10" for d
    using cu [OF that] by (simp add: digit_char_def)
  have "unat digits + length bytes = 5"
    by (simp add: digits_def bytes_def)
  moreover have "0 \<notin> set bytes"
    using d by (auto simp: bytes_def cz)
  moreover have "map (\<lambda>b. char_of (unat b)) bytes = decimal (unat n)"
    using d by (simp add: decimal_digits [OF d v] bytes_def cc)
  moreover have "\<exists>b. usint2decascii n buffer = Some (digits, b)
                   \<and> map b [unat digits ..< 5] = bytes \<and> b 5 = buffer 5
                   \<and> map b [0 ..< unat digits] = replicate (unat digits) 32" for buffer
  proof -
    from \<open>unat n < 65536\<close> have "usint2decascii (of_nat (unat n)) buffer = Some (digits,
        buffer
          (0 := if d0 = 0 then 32 else c d0,
           1 := if d0 = 0 \<and> d1 = 0 then 32 else c d1,
           2 := if d0 = 0 \<and> d1 = 0 \<and> d2 = 0 then 32 else c d2,
           3 := if d0 = 0 \<and> d1 = 0 \<and> d2 = 0 \<and> d3 = 0 then 32 else c d3,
           4 := c d4))"
      unfolding digits_def c_def by (rule usint2decascii_digits [OF d v])
    then show ?thesis
      by (simp add: digits_def bytes_def ranges blanks)
  qed
  ultimately show ?thesis
    by blast
qed

lemma substring_bytes:
  "substring b digits = map (\<lambda>c. char_of (unat c)) (map b [unat digits ..< 5])"
  by (simp add: substring_def USINT2DECASCII_MAX_DIGITS_def comp_def)

subsection \<open>Printing text\<close>

lemma D_PRINT_CHAR_loop_effect:
  assumes "responsive E"
  shows "\<exists>s'. D_PRINT_CHAR_loop E c i s = Some s'
           \<and> wire s' = wire s
                @ map (\<lambda>k. WRITE (pgm_read_font E (unat c * 5 + k))) [unat i ..< 5]"
  using assms
proof (induction E c i s rule: D_PRINT_CHAR_loop.induct)
  case (1 E c i s)
  show ?case
  proof (cases "i < 5")
    case True
    then have lt: "unat i < 5"
      by (simp add: word_less_nat_alt)
    then have suc: "unat (i + 1) = Suc (unat i)"
      by (simp add: unat_word_ariths)
    from D_TX_effect [OF "1.prems", of "pgm_read_font E (unat c * 5 + unat i)" s]
    obtain s1 where tx: "D_TX E (pgm_read_font E (unat c * 5 + unat i)) s = Some s1"
      and w1: "wire s1 = wire s @ [WRITE (pgm_read_font E (unat c * 5 + unat i))]"
      by blast
    from "1.IH" [OF True tx "1.prems"]
    obtain s' where loop: "D_PRINT_CHAR_loop E c (i + 1) s1 = Some s'"
      and w': "wire s' = wire s1
                 @ map (\<lambda>k. WRITE (pgm_read_font E (unat c * 5 + k))) [unat (i + 1) ..< 5]"
      by blast
    from lt have "[unat i ..< 5] = unat i # [Suc (unat i) ..< 5]"
      by (simp add: upt_conv_Cons)
    with True tx loop w1 w' suc show ?thesis
      by (subst D_PRINT_CHAR_loop.simps) simp
  next
    case False
    then have "5 \<le> unat i"
      by (simp add: word_less_nat_alt)
    with False show ?thesis
      by (subst D_PRINT_CHAR_loop.simps) simp
  qed
qed

lemma emits_D_PRINT_CHAR_loop:
  "responsive E \<Longrightarrow>
     emits (D_PRINT_CHAR_loop E c 0)
       (map WRITE (map (\<lambda>i. pgm_read_font E (unat c * 5 + i)) [0 ..< 5]))"
  unfolding emits_def using D_PRINT_CHAR_loop_effect [of E c 0] by (simp add: comp_def)

lemma emits_D_PRINT_CHAR:
  assumes "responsive E"
  shows "emits (D_PRINT_CHAR E ch) (glyph_session E ch)"
proof -
  have eq: "D_PRINT_CHAR E ch s =
      D_START_DAT E s \<bind>
        (\<lambda>s1. D_TX E 0x00 s1 \<bind> (\<lambda>s2. D_PRINT_CHAR_loop E (ch - 32) 0 s2 \<bind> D_STOP))" for s
    by (simp add: D_PRINT_CHAR_def Let_def)
  show ?thesis
    by (rule emits_eq [OF eq])
       ((rule emits_basic emits_D_PRINT_CHAR_loop assms
         | simp add: glyph_session_def data_session_def session_def)+)
qed

lemma emits_D_PRINT_STR:
  assumes "responsive E" and "0 \<in> set str"
  shows "emits (D_PRINT_STR E str)
           (concat (map (glyph_session E) (takeWhile (\<lambda>ch. ch \<noteq> 0) str)))"
  using assms(2)
proof (induction str)
  case Nil
  then show ?case
    by simp
next
  case (Cons ch rest)
  show ?case
  proof (cases "ch = 0")
    case True
    then show ?thesis
      by (simp add: emits_def)
  next
    case False
    with Cons.prems have "0 \<in> set rest"
      by auto
    from emits_bind [OF emits_D_PRINT_CHAR [OF assms(1), of ch] Cons.IH [OF this] refl]
    show ?thesis
      using False by (simp add: emits_def)
  qed
qed

lemma D_PRINT_INT_prints:
  "\<exists>digits bytes.
      unat digits + length bytes = 5 \<and> 0 \<notin> set bytes
      \<and> map (\<lambda>b. char_of (unat b)) bytes = decimal (unat n)
      \<and> (\<forall>s. \<exists>b. usint2decascii n ((ssd1306_numdec_buffer s)(USINT2DECASCII_MAX_DIGITS := 0))
                     = Some (digits, b)
                   \<and> map b [unat digits ..< 5] = bytes
                   \<and> D_PRINT_INT E n s
                       = D_PRINT_STR E (bytes @ [0]) (s\<lparr>ssd1306_numdec_buffer := b\<rparr>))"
proof -
  from usint2decascii_result [of n]
  obtain digits bytes
    where len: "unat digits + length bytes = 5" and nz: "0 \<notin> set bytes"
      and dec: "map (\<lambda>b. char_of (unat b)) bytes = decimal (unat n)"
      and res: "\<And>buffer. \<exists>b. usint2decascii n buffer = Some (digits, b)
                           \<and> map b [unat digits ..< 5] = bytes \<and> b 5 = buffer 5"
    by blast
  have "\<exists>b. usint2decascii n ((ssd1306_numdec_buffer s)(USINT2DECASCII_MAX_DIGITS := 0))
               = Some (digits, b)
             \<and> map b [unat digits ..< 5] = bytes
             \<and> D_PRINT_INT E n s = D_PRINT_STR E (bytes @ [0]) (s\<lparr>ssd1306_numdec_buffer := b\<rparr>)"
    for s
  proof -
    from res [of "(ssd1306_numdec_buffer s)(5 := 0)"]
    obtain b where r: "usint2decascii n ((ssd1306_numdec_buffer s)(5 := 0)) = Some (digits, b)"
      and m: "map b [unat digits ..< 5] = bytes" and t: "b 5 = 0"
      by auto
    from len have "unat digits \<le> 5"
      by simp
    then have "[unat digits ..< 6] = [unat digits ..< 5] @ [5]"
      using upt_Suc_append [of "unat digits" 5] by simp
    with m t have "map b [unat digits ..< 6] = bytes @ [0]"
      by simp
    with r m show ?thesis
      by (simp add: D_PRINT_INT_def USINT2DECASCII_MAX_DIGITS_def Let_def)
  qed
  with len nz dec show ?thesis
    by blast
qed

lemma emits_D_PRINT_INT:
  assumes "responsive E"
  shows "\<exists>bytes. emits (D_PRINT_INT E n) (concat (map (glyph_session E) bytes))"
proof -
  from D_PRINT_INT_prints [of n E]
  obtain digits bytes where nz: "0 \<notin> set bytes"
    and pr: "\<And>s. \<exists>b. D_PRINT_INT E n s
                       = D_PRINT_STR E (bytes @ [0]) (s\<lparr>ssd1306_numdec_buffer := b\<rparr>)"
    by blast
  from nz have tw: "takeWhile (\<lambda>ch. ch \<noteq> 0) (bytes @ [0]) = bytes"
    by (induction bytes) auto
  have "emits (D_PRINT_STR E (bytes @ [0])) (concat (map (glyph_session E) bytes))"
    using emits_D_PRINT_STR [OF assms, of "bytes @ [0]"] tw by simp
  then have "emits (D_PRINT_INT E n) (concat (map (glyph_session E) bytes))"
    unfolding emits_def
  proof (intro allI)
    fix s
    assume all: "\<forall>s. \<exists>s'. D_PRINT_STR E (bytes @ [0]) s = Some s'
                        \<and> wire s' = wire s @ concat (map (glyph_session E) bytes)"
    from pr [of s] obtain b
      where "D_PRINT_INT E n s = D_PRINT_STR E (bytes @ [0]) (s\<lparr>ssd1306_numdec_buffer := b\<rparr>)"
      by blast
    with all [rule_format, of "s\<lparr>ssd1306_numdec_buffer := b\<rparr>"]
    show "\<exists>s'. D_PRINT_INT E n s = Some s'
                \<and> wire s' = wire s @ concat (map (glyph_session E) bytes)"
      by simp
  qed
  then show ?thesis
    by blast
qed

subsection \<open>Well bracketed logs\<close>

lemma bracketed_append:
  "bracketed opened xs \<Longrightarrow> bracketed False ys \<Longrightarrow> bracketed opened (xs @ ys)"
proof (induction xs arbitrary: opened)
  case Nil
  then show ?case
    by simp
next
  case (Cons e xs)
  then show ?case
    by (cases e) auto
qed

lemma bracketed_writes: "bracketed True (map WRITE bytes @ [STOP])"
  by (induction bytes) simp_all

lemma bracketed_session: "bracketed False (session E control bytes)"
  by (simp add: session_def bracketed_writes)

lemma bracketed_page_write: "bracketed False (page_write E x pb)"
  by (simp add: page_write_def command_session_def data_session_def
      bracketed_append bracketed_session)

lemma bracketed_concat:
  "(\<And>x. x \<in> set xs \<Longrightarrow> bracketed False (f x)) \<Longrightarrow> bracketed False (concat (map f xs))"
  by (induction xs) (simp_all add: bracketed_append)

lemma emits_returns_closed:
  assumes "emits f es" and "bracketed False es" and "bracketed False (wire s)"
  shows "returns_closed f s"
proof -
  from assms(1) obtain s' where "f s = Some s'" and "wire s' = wire s @ es"
    unfolding emits_def by blast
  with assms(2,3) show ?thesis
    by (simp add: returns_closed_def bracketed_append)
qed

section \<open>Claims\<close>

lemma responsive_bench: "responsive bench"
  by (simp add: responsive_def bench_def acking_twi_def split: list.splits bus_event.splits)

lemma responsive_deaf: "responsive deaf"
  by (simp add: responsive_def deaf_def)

text \<open>
  C1, as amended: for \<open>y\<close> in 0..63 and a length in 1..64 with \<open>y + length \<le> 64\<close> whose
  end \<open>y + length\<close> is not a multiple of 8, \<^verbatim>\<open>D_DRAW_VERT\<close> issues exactly
  \<open>n = ceil((y % 8 + length) / 8)\<close> page writes, on the pages \<open>y / 8, \<dots>, y / 8 + n - 1\<close>.
  When \<open>n = 1\<close> the one byte is \<open>(0xFF << (y % 8)) & (0xFF >> ((y + length) % 8))\<close>;
  otherwise the first byte is \<open>0xFF << (y % 8)\<close>, the last is
  \<open>0xFF >> ((y + length) % 8)\<close> and every byte between them is 0xFF. The call returns
  whenever the hardware is responsive.
\<close>

theorem D_DRAW_VERT_page_writes:
  assumes "responsive E"
    and "unat y < 64" and "1 \<le> unat len" and "unat y + unat len \<le> 64"
    and "(unat y + unat len) mod 8 \<noteq> 0"
  shows "let n = (unat y mod 8 + unat len + 7) div 8;
             first_mask = (push_bit (unat y mod 8) 0xFF :: u8);
             last_mask = (drop_bit ((unat y + unat len) mod 8) 0xFF :: u8)
         in \<exists>s' writes.
              D_DRAW_VERT E x y len s = Some s'
              \<and> wire s' = wire s @ concat (map (page_write E x) writes)
              \<and> length writes = n
              \<and> map fst writes = map of_nat [unat y div 8 ..< unat y div 8 + n]
              \<and> map snd writes =
                  (if n = 1 then [first_mask AND last_mask]
                   else [first_mask] @ replicate (n - 2) 0xFF @ [last_mask])"
proof -
  define ps where "ps = unat y div 8"
  define pe where "pe = (unat y + unat len) div 8"
  define n where "n = (unat y mod 8 + unat len + 7) div 8"
  define a :: u8 where "a = push_bit (unat y mod 8) 0xFF"
  define b :: u8 where "b = drop_bit ((unat y + unat len) mod 8) 0xFF"
  have "(unat y mod 8 + unat len) mod 8 \<noteq> 0"
    using assms(5) by (simp add: mod_page)
  then have n: "n = (unat y mod 8 + unat len) div 8 + 1"
    unfolding n_def using ceil8 [of "unat y mod 8 + unat len"] by (simp add: add.assoc)
  have pe: "pe = ps + (unat y mod 8 + unat len) div 8"
    unfolding pe_def ps_def by (rule split_page)
  have start: "y div 8 = of_nat ps"
    using page_numbers(1) [of y] by (simp add: ps_def)
  have "\<exists>s' writes.
          D_DRAW_VERT E x y len s = Some s'
          \<and> wire s' = wire s @ concat (map (page_write E x) writes)
          \<and> length writes = n
          \<and> map fst writes = map of_nat [ps ..< ps + n]
          \<and> map snd writes = (if n = 1 then [a AND b] else [a] @ replicate (n - 2) 0xFF @ [b])"
  proof (cases "pe = ps")
    case True
    with pe n have "n = 1"
      by simp
    from True emits_D_DRAW_VERT_single [OF assms(1), of y len x]
    obtain s' where "D_DRAW_VERT E x y len s = Some s'"
      and "wire s' = wire s @ page_write E x (y div 8, a AND b)"
      unfolding emits_def pe_def ps_def a_def b_def by blast
    with \<open>n = 1\<close> start show ?thesis
      by (intro exI [of _ s'] exI [of _ "[(y div 8, a AND b)]"]) simp
  next
    case False
    with pe n have "1 < n" and pe': "pe = ps + n - 1"
      by simp_all
    define middle where "middle = map (\<lambda>p. (of_nat p :: u8, 0xFF :: u8)) [Suc ps ..< pe]"
    from False emits_D_DRAW_VERT_multi [OF assms(1), of y len x]
    obtain s' where ret: "D_DRAW_VERT E x y len s = Some s'"
      and w: "wire s' = wire s @ page_write E x (y div 8, a)
                @ concat (map (\<lambda>p. page_write E x (of_nat p, 0xFF)) [Suc ps ..< pe])
                @ page_write E x (of_nat pe, b)"
      unfolding emits_def pe_def ps_def a_def b_def by blast
    have pages: "[ps ..< ps + n] = ps # [Suc ps ..< pe] @ [pe]"
      using \<open>1 < n\<close> pe'
    proof -
      from \<open>1 < n\<close> pe' have "ps < pe" and "ps + n = Suc pe"
        by simp_all
      then show ?thesis
        by (simp add: upt_conv_Cons)
    qed
    have len_mid: "length middle = n - 2"
      using pe' \<open>1 < n\<close> by (simp add: middle_def)
    let ?writes = "(y div 8, a) # middle @ [(of_nat pe, b)]"
    have "wire s' = wire s @ concat (map (page_write E x) ?writes)"
      by (simp add: w middle_def comp_def)
    moreover have "length ?writes = n"
      using len_mid \<open>1 < n\<close> by simp
    moreover have "map fst ?writes = map of_nat [ps ..< ps + n]"
      by (simp add: pages start middle_def comp_def)
    moreover have "map snd ?writes = [a] @ replicate (n - 2) 0xFF @ [b]"
      using len_mid by (simp add: middle_def comp_def map_replicate_const)
    ultimately show ?thesis
      using ret \<open>1 < n\<close> by (intro exI [of _ s'] exI [of _ ?writes]) simp
  qed
  then show ?thesis
    unfolding Let_def n_def ps_def a_def b_def .
qed

theorem D_DRAW_VERT_page_writes_witness:
  "responsive bench
   \<and> unat (5 :: u8) < 64 \<and> 1 \<le> unat (20 :: u8) \<and> unat (5 :: u8) + unat (20 :: u8) \<le> 64
   \<and> (unat (5 :: u8) + unat (20 :: u8)) mod 8 \<noteq> 0
   \<and> (\<exists>s' writes.
          D_DRAW_VERT bench 9 5 20 reset = Some s'
          \<and> wire s' = wire reset @ concat (map (page_write bench 9) writes)
          \<and> length writes = 4
          \<and> map fst writes = [0, 1, 2, 3]
          \<and> map snd writes = [0xE0, 0xFF, 0xFF, 0x7F])"
proof -
  have twice: "replicate 2 (0xFF :: u8) = [0xFF, 0xFF]"
    by (simp add: numeral_2_eq_2)
  have narrowed: "(8160 :: u8) = 0xE0"
    by simp
  from D_DRAW_VERT_page_writes [of bench 5 20 9 reset] responsive_bench show ?thesis
    by (simp add: Let_def upt_conv_Cons twice narrowed)
qed

text \<open>
  C1 as stated fails on a line inside one page: for \<open>y = 3\<close> and length 3 the one page
  write carries the byte 0x00, which is neither \<open>0xFF << 3\<close> nor \<open>0xFF >> 6\<close>.
\<close>

theorem D_DRAW_VERT_single_page_counterexample:
  "map_option wire (D_DRAW_VERT bench 0 3 3 reset) = Some (page_write bench 0 (0, 0x00))
   \<and> (0x00 :: u8) \<noteq> push_bit (3 mod 8) 0xFF
   \<and> (0x00 :: u8) \<noteq> drop_bit ((3 + 3) mod 8) 0xFF"
proof (intro conjI)
  show "map_option wire (D_DRAW_VERT bench 0 3 3 reset) = Some (page_write bench 0 (0, 0x00))"
    by code_simp
  show "(0x00 :: u8) \<noteq> push_bit (3 mod 8) 0xFF"
    by simp
  show "(0x00 :: u8) \<noteq> drop_bit ((3 + 3) mod 8) 0xFF"
    by simp
qed

text \<open>
  C2 at the page boundary: \<^verbatim>\<open>D_DRAW_VERT(0, 0, 8)\<close>, a line that fills page 0 exactly
  (\<open>y % 8 + length = 8\<close>), performs two page writes, 0xFF on page 0 and 0xFF on page 1.
\<close>

theorem D_DRAW_VERT_page_boundary:
  "unat (0 :: u8) mod 8 + unat (8 :: u8) \<le> 8
   \<and> map_option wire (D_DRAW_VERT bench 0 0 8 reset)
       = Some (page_write bench 0 (0, 0xFF) @ page_write bench 0 (1, 0xFF))"
proof
  show "unat (0 :: u8) mod 8 + unat (8 :: u8) \<le> 8"
    by simp
  show "map_option wire (D_DRAW_VERT bench 0 0 8 reset)
          = Some (page_write bench 0 (0, 0xFF) @ page_write bench 0 (1, 0xFF))"
    by code_simp
qed

text \<open>
  C3: \<^verbatim>\<open>usint2decascii\<close> returns, for every 16-bit \<open>n\<close> and whatever the buffer held. For 0 it
  returns the offset 4 and the substring from there is "0"; for 12345 it returns the
  offset 0 and the substring is "12345"; for every \<open>n\<close> the substring of the five digit
  positions that starts at the returned offset is the standard decimal notation of \<open>n\<close>,
  with no blank in it, and every position before the offset holds a blank (0x20).
  \<^verbatim>\<open>D_PRINT_INT\<close> hands exactly that substring, followed by the terminating zero, to
  \<^verbatim>\<open>D_PRINT_STR\<close>.
\<close>

theorem usint2decascii_decimal:
  "(\<exists>b. usint2decascii 0 buffer = Some (4, b) \<and> substring b 4 = ''0'')
   \<and> (\<exists>b. usint2decascii 12345 buffer = Some (0, b) \<and> substring b 0 = ''12345'')
   \<and> (\<exists>digits b. usint2decascii n buffer = Some (digits, b)
          \<and> substring b digits = decimal (unat n)
          \<and> map b [0 ..< unat digits] = replicate (unat digits) 0x20)
   \<and> (\<exists>digits b.
          usint2decascii n ((ssd1306_numdec_buffer s)(USINT2DECASCII_MAX_DIGITS := 0))
            = Some (digits, b)
          \<and> substring b digits = decimal (unat n)
          \<and> D_PRINT_INT E n s
              = D_PRINT_STR E (map b [unat digits ..< USINT2DECASCII_MAX_DIGITS] @ [0])
                  (s\<lparr>ssd1306_numdec_buffer := b\<rparr>))"
proof (intro conjI)
  have ranges: "[0 ..< 5] = [0, 1, 2, 3, 4]" "[4 ..< 5] = [4 :: nat]"
    by (simp_all add: upt_conv_Cons)
  have chars: "char_of (48 :: nat) = CHR ''0''" "char_of (49 :: nat) = CHR ''1''"
    "char_of (50 :: nat) = CHR ''2''" "char_of (51 :: nat) = CHR ''3''"
    "char_of (52 :: nat) = CHR ''4''" "char_of (53 :: nat) = CHR ''5''"
    by code_simp+
  have "usint2decascii (of_nat 0) buffer
          = Some (4, buffer(0 := 32, 1 := 32, 2 := 32, 3 := 32, 4 := 48))"
    using usint2decascii_digits [of 0 0 0 0 0 0 buffer] by simp
  then show "\<exists>b. usint2decascii 0 buffer = Some (4, b) \<and> substring b 4 = ''0''"
    by (simp add: substring_bytes ranges chars)
  have "usint2decascii (of_nat 12345) buffer
          = Some (0, buffer(0 := 49, 1 := 50, 2 := 51, 3 := 52, 4 := 53))"
    using usint2decascii_digits [of 1 2 3 4 5 12345 buffer] by simp
  then show "\<exists>b. usint2decascii 12345 buffer = Some (0, b) \<and> substring b 0 = ''12345''"
    by (simp add: substring_bytes ranges chars)
  from usint2decascii_result [of n]
  obtain digits bytes
    where dec: "map (\<lambda>b. char_of (unat b)) bytes = decimal (unat n)"
      and res: "\<And>buffer. \<exists>b. usint2decascii n buffer = Some (digits, b)
                           \<and> map b [unat digits ..< 5] = bytes \<and> b 5 = buffer 5
                           \<and> map b [0 ..< unat digits] = replicate (unat digits) 32"
    by blast
  from res [of buffer]
  obtain b where "usint2decascii n buffer = Some (digits, b)"
    and "map b [unat digits ..< 5] = bytes"
    and "map b [0 ..< unat digits] = replicate (unat digits) 32"
    by blast
  with dec show "\<exists>digits b. usint2decascii n buffer = Some (digits, b)
          \<and> substring b digits = decimal (unat n)
          \<and> map b [0 ..< unat digits] = replicate (unat digits) 0x20"
    by (intro exI [of _ digits] exI [of _ b]) (simp add: substring_bytes)
  from D_PRINT_INT_prints [of n E]
  obtain digits' bytes'
    where dec': "map (\<lambda>b. char_of (unat b)) bytes' = decimal (unat n)"
      and pr: "\<And>s. \<exists>b. usint2decascii n
                               ((ssd1306_numdec_buffer s)(USINT2DECASCII_MAX_DIGITS := 0))
                             = Some (digits', b)
                           \<and> map b [unat digits' ..< 5] = bytes'
                           \<and> D_PRINT_INT E n s
                               = D_PRINT_STR E (bytes' @ [0]) (s\<lparr>ssd1306_numdec_buffer := b\<rparr>)"
    by blast
  from pr [of s]
  obtain b' where "usint2decascii n ((ssd1306_numdec_buffer s)(USINT2DECASCII_MAX_DIGITS := 0))
                     = Some (digits', b')"
    and "map b' [unat digits' ..< 5] = bytes'"
    and "D_PRINT_INT E n s = D_PRINT_STR E (bytes' @ [0]) (s\<lparr>ssd1306_numdec_buffer := b'\<rparr>)"
    by blast
  with dec' show "\<exists>digits b.
          usint2decascii n ((ssd1306_numdec_buffer s)(USINT2DECASCII_MAX_DIGITS := 0))
            = Some (digits, b)
          \<and> substring b digits = decimal (unat n)
          \<and> D_PRINT_INT E n s
              = D_PRINT_STR E (map b [unat digits ..< USINT2DECASCII_MAX_DIGITS] @ [0])
                  (s\<lparr>ssd1306_numdec_buffer := b\<rparr>)"
    by (intro exI [of _ digits'] exI [of _ b'])
       (simp add: substring_bytes USINT2DECASCII_MAX_DIGITS_def)
qed

text \<open>
  C4: every public operation, started on a bus whose log is well bracketed, returns
  with a well bracketed log: each start condition (\<^verbatim>\<open>D_START_CMD\<close>, \<^verbatim>\<open>D_START_DAT\<close>) is
  followed by exactly one stop (\<^verbatim>\<open>D_STOP\<close>) before the next start, no session is nested
  and none is left open, whatever acknowledgments the hardware gives. The operations
  return whenever the hardware is responsive; the string of \<^verbatim>\<open>D_PRINT_STR\<close> is any byte
  list followed by its terminating zero.
\<close>

theorem sessions_are_paired:
  assumes "responsive E" and "bracketed False (wire s)"
  shows "returns_closed (D_INIT E) s
       \<and> returns_closed (D_SETPOS E x page) s
       \<and> returns_closed (D_CLEAR E) s
       \<and> returns_closed (D_ON E) s
       \<and> returns_closed (D_OFF E) s
       \<and> returns_closed (D_CONTRAST E contrast) s
       \<and> returns_closed (D_DRAW_HOR E x y len) s
       \<and> returns_closed (D_DRAW_VERT E x y len) s
       \<and> returns_closed (D_PRINT_CHAR E ch) s
       \<and> returns_closed (D_PRINT_STR E (str @ [0])) s
       \<and> returns_closed (D_PRINT_INT E n) s"
proof (intro conjI)
  note closed = emits_returns_closed [OF _ _ assms(2)]
  note sessions = command_session_def data_session_def glyph_session_def
    bracketed_session bracketed_page_write bracketed_append bracketed_concat
  show "returns_closed (D_INIT E) s"
    by (rule closed [OF emits_D_INIT [OF assms(1)]]) (simp add: sessions)
  show "returns_closed (D_SETPOS E x page) s"
    by (rule closed [OF emits_D_SETPOS [OF assms(1)]]) (simp add: sessions)
  show "returns_closed (D_CLEAR E) s"
    by (rule closed [OF emits_D_CLEAR [OF assms(1)]]) (simp add: sessions)
  show "returns_closed (D_ON E) s"
    by (rule closed [OF emits_D_ON [OF assms(1)]]) (simp add: sessions)
  show "returns_closed (D_OFF E) s"
    by (rule closed [OF emits_D_OFF [OF assms(1)]]) (simp add: sessions)
  show "returns_closed (D_CONTRAST E contrast) s"
    by (rule closed [OF emits_D_CONTRAST [OF assms(1)]]) (simp add: sessions)
  show "returns_closed (D_DRAW_HOR E x y len) s"
    by (rule closed [OF emits_D_DRAW_HOR [OF assms(1)]]) (simp add: sessions)
  show "returns_closed (D_DRAW_VERT E x y len) s"
  proof (cases "(unat y + unat len) div 8 = unat y div 8")
    case True
    show ?thesis
      by (rule closed [OF emits_D_DRAW_VERT_single [OF assms(1) True]]) (simp add: sessions)
  next
    case False
    show ?thesis
      by (rule closed [OF emits_D_DRAW_VERT_multi [OF assms(1) False]]) (simp add: sessions)
  qed
  show "returns_closed (D_PRINT_CHAR E ch) s"
    by (rule closed [OF emits_D_PRINT_CHAR [OF assms(1)]]) (simp add: sessions)
  show "returns_closed (D_PRINT_STR E (str @ [0])) s"
    by (rule closed [OF emits_D_PRINT_STR [OF assms(1)]]) (simp_all add: sessions)
  from emits_D_PRINT_INT [OF assms(1), of n]
  obtain bytes where "emits (D_PRINT_INT E n) (concat (map (glyph_session E) bytes))"
    by blast
  then show "returns_closed (D_PRINT_INT E n) s"
    by (rule closed) (simp add: sessions)
qed

theorem sessions_are_paired_witness:
  "responsive bench \<and> bracketed False (wire reset)
   \<and> returns_closed (D_INIT bench) reset
   \<and> returns_closed (D_SETPOS bench 25 1) reset
   \<and> returns_closed (D_CLEAR bench) reset
   \<and> returns_closed (D_ON bench) reset
   \<and> returns_closed (D_OFF bench) reset
   \<and> returns_closed (D_CONTRAST bench 0xFF) reset
   \<and> returns_closed (D_DRAW_HOR bench 25 63 127) reset
   \<and> returns_closed (D_DRAW_VERT bench 25 63 127) reset
   \<and> returns_closed (D_PRINT_CHAR bench 0x44) reset
   \<and> returns_closed (D_PRINT_STR bench ([0x44, 0x45, 0x4D, 0x4F] @ [0])) reset
   \<and> returns_closed (D_PRINT_INT bench 800) reset"
proof -
  have "bracketed False (wire reset)"
    by (simp add: reset_def)
  from sessions_are_paired [OF responsive_bench this, of 25 1 "0xFF" 63 127 "0x44" "[0x44, 0x45, 0x4D, 0x4F]" 800]
  show ?thesis
    using responsive_bench \<open>bracketed False (wire reset)\<close> by simp
qed

text \<open>
  C5: on responsive hardware, whatever status each step finds, \<^verbatim>\<open>D_TX\<close>,
  \<^verbatim>\<open>D_START_CMD\<close> and \<^verbatim>\<open>D_START_DAT\<close> return a state, never an error, after performing all
  their bus actions, and a whole \<^verbatim>\<open>D_SETPOS\<close> transaction runs to its stop condition.
  Each failed check (start condition against 0x08, address against 0x18, byte against
  0x28) runs \<^verbatim>\<open>D_ERROR\<close> once, which toggles the error pin ten times, and nothing else
  records the failure.
\<close>

theorem ack_failure_signalled_and_ignored:
  assumes "responsive E"
  shows "(\<exists>s'. D_TX E d s = Some s' \<and> wire s' = wire s @ [WRITE d]
             \<and> pin_toggles s' = pin_toggles s + 10 * nack E (wire s @ [WRITE d]) 0x28)
       \<and> (\<exists>s'. D_START_CMD E s = Some s'
             \<and> wire s' = wire s @ [START, WRITE (SLA_W E), WRITE 0x00]
             \<and> pin_toggles s' = pin_toggles s
                 + 10 * (nack E (wire s @ [START]) 0x08
                         + nack E (wire s @ [START, WRITE (SLA_W E)]) 0x18
                         + nack E (wire s @ [START, WRITE (SLA_W E), WRITE 0x00]) 0x28))
       \<and> (\<exists>s'. D_START_DAT E s = Some s'
             \<and> wire s' = wire s @ [START, WRITE (SLA_W E), WRITE 0x40]
             \<and> pin_toggles s' = pin_toggles s
                 + 10 * (nack E (wire s @ [START]) 0x08
                         + nack E (wire s @ [START, WRITE (SLA_W E)]) 0x18
                         + nack E (wire s @ [START, WRITE (SLA_W E), WRITE 0x40]) 0x28))
       \<and> (\<exists>s'. D_SETPOS E x page s = Some s'
             \<and> wire s' = wire s @ [START, WRITE (SLA_W E), WRITE 0x00, WRITE (0xB0 + page),
                                    WRITE (drop_bit 4 (x AND 0xF0) OR 0x10), WRITE (x AND 0x0F),
                                    STOP]
             \<and> pin_toggles s' = pin_toggles s
                 + 10 * (nack E (wire s @ [START]) 0x08
                         + nack E (wire s @ [START, WRITE (SLA_W E)]) 0x18
                         + nack E (wire s @ [START, WRITE (SLA_W E), WRITE 0x00]) 0x28
                         + nack E (wire s @ [START, WRITE (SLA_W E), WRITE 0x00,
                                             WRITE (0xB0 + page)]) 0x28
                         + nack E (wire s @ [START, WRITE (SLA_W E), WRITE 0x00,
                                             WRITE (0xB0 + page),
                                             WRITE (drop_bit 4 (x AND 0xF0) OR 0x10)]) 0x28
                         + nack E (wire s @ [START, WRITE (SLA_W E), WRITE 0x00,
                                             WRITE (0xB0 + page),
                                             WRITE (drop_bit 4 (x AND 0xF0) OR 0x10),
                                             WRITE (x AND 0x0F)]) 0x28))"
proof (intro conjI)
  show "\<exists>s'. D_TX E d s = Some s' \<and> wire s' = wire s @ [WRITE d]
          \<and> pin_toggles s' = pin_toggles s + 10 * nack E (wire s @ [WRITE d]) 0x28"
    by (rule D_TX_effect [OF assms])
  show "\<exists>s'. D_START_CMD E s = Some s'
          \<and> wire s' = wire s @ [START, WRITE (SLA_W E), WRITE 0x00]
          \<and> pin_toggles s' = pin_toggles s
              + 10 * (nack E (wire s @ [START]) 0x08
                      + nack E (wire s @ [START, WRITE (SLA_W E)]) 0x18
                      + nack E (wire s @ [START, WRITE (SLA_W E), WRITE 0x00]) 0x28)"
    by (rule D_START_CMD_effect [OF assms])
  show "\<exists>s'. D_START_DAT E s = Some s'
          \<and> wire s' = wire s @ [START, WRITE (SLA_W E), WRITE 0x40]
          \<and> pin_toggles s' = pin_toggles s
              + 10 * (nack E (wire s @ [START]) 0x08
                      + nack E (wire s @ [START, WRITE (SLA_W E)]) 0x18
                      + nack E (wire s @ [START, WRITE (SLA_W E), WRITE 0x40]) 0x28)"
    by (rule D_START_DAT_effect [OF assms])
  from D_START_CMD_effect [OF assms, of s]
  obtain s1 where c1: "D_START_CMD E s = Some s1"
    and w1: "wire s1 = wire s @ [START, WRITE (SLA_W E), WRITE 0x00]"
    and t1: "pin_toggles s1 = pin_toggles s
               + 10 * (nack E (wire s @ [START]) 0x08
                       + nack E (wire s @ [START, WRITE (SLA_W E)]) 0x18
                       + nack E (wire s @ [START, WRITE (SLA_W E), WRITE 0x00]) 0x28)"
    by blast
  from D_TX_effect [OF assms, of "0xB0 + page" s1]
  obtain s2 where c2: "D_TX E (0xB0 + page) s1 = Some s2"
    and w2: "wire s2 = wire s1 @ [WRITE (0xB0 + page)]"
    and t2: "pin_toggles s2 = pin_toggles s1 + 10 * nack E (wire s1 @ [WRITE (0xB0 + page)]) 0x28"
    by blast
  from D_TX_effect [OF assms, of "drop_bit 4 (x AND 0xF0) OR 0x10" s2]
  obtain s3 where c3: "D_TX E (drop_bit 4 (x AND 0xF0) OR 0x10) s2 = Some s3"
    and w3: "wire s3 = wire s2 @ [WRITE (drop_bit 4 (x AND 0xF0) OR 0x10)]"
    and t3: "pin_toggles s3 = pin_toggles s2
               + 10 * nack E (wire s2 @ [WRITE (drop_bit 4 (x AND 0xF0) OR 0x10)]) 0x28"
    by blast
  from D_TX_effect [OF assms, of "x AND 0x0F" s3]
  obtain s4 where c4: "D_TX E (x AND 0x0F) s3 = Some s4"
    and w4: "wire s4 = wire s3 @ [WRITE (x AND 0x0F)]"
    and t4: "pin_toggles s4 = pin_toggles s3 + 10 * nack E (wire s3 @ [WRITE (x AND 0x0F)]) 0x28"
    by blast
  have "D_SETPOS E x page s = Some (s4\<lparr>wire := wire s4 @ [STOP], interrupts := True\<rparr>)"
    using c1 c2 c3 c4 by (simp add: D_SETPOS_def D_STOP_def)
  then show "\<exists>s'. D_SETPOS E x page s = Some s'
          \<and> wire s' = wire s @ [START, WRITE (SLA_W E), WRITE 0x00, WRITE (0xB0 + page),
                                 WRITE (drop_bit 4 (x AND 0xF0) OR 0x10), WRITE (x AND 0x0F),
                                 STOP]
          \<and> pin_toggles s' = pin_toggles s
              + 10 * (nack E (wire s @ [START]) 0x08
                      + nack E (wire s @ [START, WRITE (SLA_W E)]) 0x18
                      + nack E (wire s @ [START, WRITE (SLA_W E), WRITE 0x00]) 0x28
                      + nack E (wire s @ [START, WRITE (SLA_W E), WRITE 0x00,
                                          WRITE (0xB0 + page)]) 0x28
                      + nack E (wire s @ [START, WRITE (SLA_W E), WRITE 0x00,
                                          WRITE (0xB0 + page),
                                          WRITE (drop_bit 4 (x AND 0xF0) OR 0x10)]) 0x28
                      + nack E (wire s @ [START, WRITE (SLA_W E), WRITE 0x00,
                                          WRITE (0xB0 + page),
                                          WRITE (drop_bit 4 (x AND 0xF0) OR 0x10),
                                          WRITE (x AND 0x0F)]) 0x28)"
    by (simp add: w1 w2 w3 w4 t1 t2 t3 t4)
qed

theorem ack_failure_signalled_and_ignored_witness:
  "responsive deaf
   \<and> (\<exists>s'. D_TX deaf 0xAF reset = Some s' \<and> wire s' = [WRITE 0xAF] \<and> pin_toggles s' = 10)
   \<and> (\<exists>s'. D_START_CMD deaf reset = Some s'
          \<and> wire s' = [START, WRITE 0x78, WRITE 0x00] \<and> pin_toggles s' = 30)
   \<and> (\<exists>s'. D_START_DAT deaf reset = Some s'
          \<and> wire s' = [START, WRITE 0x78, WRITE 0x40] \<and> pin_toggles s' = 30)
   \<and> (\<exists>s'. D_SETPOS deaf 25 1 reset = Some s'
          \<and> wire s' = [START, WRITE 0x78, WRITE 0x00, WRITE 0xB1, WRITE 0x11, WRITE 0x09, STOP]
          \<and> pin_toggles s' = 60)"
  using ack_failure_signalled_and_ignored [OF responsive_deaf, of "0xAF" reset 25 1] responsive_deaf
  by (simp add: nack_def deaf_def bench_def reset_def)

text \<open>
  C6: for every \<open>x\<close>, \<open>y\<close> and \<open>len\<close>, \<^verbatim>\<open>D_DRAW_HOR\<close> first sets the position to column \<open>x\<close>
  of page \<open>y / 8\<close> and then writes exactly \<open>len\<close> data bytes, each \<open>1 << (y % 8)\<close>, in one
  data session. The call returns whenever the hardware is responsive.
\<close>

theorem D_DRAW_HOR_one_session:
  assumes "responsive E"
  shows "\<exists>s'. D_DRAW_HOR E x y len s = Some s'
           \<and> wire s' = wire s @ command_session E (setpos_bytes x (y div 8))
                              @ data_session E (replicate (unat len) (push_bit (unat y mod 8) 1))"
proof -
  have "unat (y mod 8) = unat y mod 8"
    by (simp add: unat_mod)
  with emits_D_DRAW_HOR [OF assms, of x y len] show ?thesis
    by (simp add: emits_def)
qed

theorem D_DRAW_HOR_one_session_witness:
  "responsive bench
   \<and> (\<exists>s'. D_DRAW_HOR bench 5 9 3 reset = Some s'
          \<and> wire s' = wire reset @ command_session bench (setpos_bytes 5 (9 div 8))
                                 @ data_session bench (replicate (unat (3 :: u8)) (push_bit (unat (9 :: u8) mod 8) 1)))"
  using D_DRAW_HOR_one_session [of bench 5 9 3 reset] responsive_bench by simp

text \<open>
  C7: \<^verbatim>\<open>D_CLEAR\<close> sets the position to (0, 0) and then writes exactly 1024 zero bytes in
  one data session. The call returns whenever the hardware is responsive.
\<close>

theorem D_CLEAR_one_frame:
  assumes "responsive E"
  shows "\<exists>s'. D_CLEAR E s = Some s'
           \<and> wire s' = wire s @ command_session E (setpos_bytes 0 0)
                              @ data_session E (replicate 1024 0)"
  using emits_D_CLEAR [OF assms] by (simp add: emits_def)

theorem D_CLEAR_one_frame_witness:
  "responsive bench
   \<and> (\<exists>s'. D_CLEAR bench reset = Some s'
          \<and> wire s' = wire reset @ command_session bench (setpos_bytes 0 0)
                                 @ data_session bench (replicate 1024 0))"
  using D_CLEAR_one_frame [of bench reset] responsive_bench by simp

text \<open>
  C8: \<^verbatim>\<open>D_INIT\<close> opens one command stream, transmits the bytes of \<^verbatim>\<open>init_sequence\<close> in
  order, then the column-range command with the bounds 0x00 and 0x7F and the page-range
  command with the bounds 0 and 0x07, and closes the stream. The call returns whenever
  the hardware is responsive.
\<close>

theorem D_INIT_byte_exact:
  assumes "responsive E"
  shows "\<exists>s'. D_INIT E s = Some s'
           \<and> wire s' = wire s @ command_session E
                 ([0xAE, 0x20, 0x00, 0xB0, 0xC8, 0x00, 0x10, 0x40, 0x81, 0x00, 0xA1, 0xA6,
                   0xA8, 0x3F, 0xA4, 0xD3, 0x00, 0xD5, 0xF0, 0xD9, 0x22, 0xDA, 0x12, 0xDB,
                   0x20, 0x8D, 0x14, 0xAF]
                  @ [OLED_CMD_SET_COLUMN_RANGE E, 0x00, 0x7F]
                  @ [OLED_CMD_SET_PAGE_RANGE E, 0x00, 0x07])"
  using emits_D_INIT [OF assms] by (simp add: emits_def init_sequence_def)

theorem D_INIT_byte_exact_witness:
  "responsive bench
   \<and> (\<exists>s'. D_INIT bench reset = Some s'
          \<and> wire s' = wire reset @ command_session bench
                 ([0xAE, 0x20, 0x00, 0xB0, 0xC8, 0x00, 0x10, 0x40, 0x81, 0x00, 0xA1, 0xA6,
                   0xA8, 0x3F, 0xA4, 0xD3, 0x00, 0xD5, 0xF0, 0xD9, 0x22, 0xDA, 0x12, 0xDB,
                   0x20, 0x8D, 0x14, 0xAF]
                  @ [OLED_CMD_SET_COLUMN_RANGE bench, 0x00, 0x7F]
                  @ [OLED_CMD_SET_PAGE_RANGE bench, 0x00, 0x07]))"
  using D_INIT_byte_exact [of bench reset] responsive_bench by simp

text \<open>
  C9: \<^verbatim>\<open>D_PRINT_STR\<close> on the empty string, whose first byte is the terminating zero,
  returns at once with the state unchanged: no session is opened and no byte is sent.
\<close>

theorem D_PRINT_STR_empty: "D_PRINT_STR E (0 # rest) s = Some s"
  by simp

text \<open>
  C10: for every \<open>x\<close> and \<open>y\<close>, \<^verbatim>\<open>D_DRAW_VERT\<close> with length 0 still performs one page
  write, whose single data byte is \<open>(0xFF << (y % 8)) & (0xFF >> (y % 8))\<close>; when
  \<open>y % 8 = 0\<close> that byte is 0xFF, a whole column of eight pixels. The call returns
  whenever the hardware is responsive.
\<close>

theorem D_DRAW_VERT_zero_length:
  assumes "responsive E"
  shows "\<exists>s'. D_DRAW_VERT E x y 0 s = Some s'
           \<and> wire s' = wire s
                @ page_write E x
                    (y div 8, push_bit (unat y mod 8) 0xFF AND drop_bit (unat y mod 8) 0xFF)
           \<and> (unat y mod 8 = 0 \<longrightarrow> wire s' = wire s @ page_write E x (y div 8, 0xFF))"
proof -
  from emits_D_DRAW_VERT_single [OF assms, of y 0 x]
  obtain s' where "D_DRAW_VERT E x y 0 s = Some s'"
    and "wire s' = wire s
           @ page_write E x
               (y div 8, push_bit (unat y mod 8) 0xFF AND drop_bit (unat y mod 8) 0xFF)"
    unfolding emits_def by auto
  then show ?thesis
    by (intro exI [of _ s']) auto
qed

theorem D_DRAW_VERT_zero_length_witness:
  "responsive bench \<and> unat (16 :: u8) mod 8 = 0
   \<and> (\<exists>s'. D_DRAW_VERT bench 7 16 0 reset = Some s'
          \<and> wire s' = wire reset @ page_write bench 7 (16 div 8, 0xFF))"
  using D_DRAW_VERT_zero_length [of bench 7 16 reset] responsive_bench by simp

end
